theory Spec2Isabelle
  imports Complex_Main "HOL-Library.Multiset"
begin

section \<open>Numbers\<close>

text \<open>
  The program computes with \<^verbatim>\<open>double\<close>. A finite double is idealised as a real number:
  rounding and overflow are not modelled. The special values are kept, because the
  program can produce them: \<^verbatim>\<open>edge.distanceKM / speed\<close> with \<^verbatim>\<open>speed == 0\<close> is an
  infinity or a NaN. Signed zeros are not distinguished.
\<close>

datatype double = Finite real | PosInf | NegInf | NaN

fun dadd :: "double \<Rightarrow> double \<Rightarrow> double" where
  "dadd (Finite a) (Finite b) = Finite (a + b)"
| "dadd NaN _ = NaN"
| "dadd _ NaN = NaN"
| "dadd PosInf NegInf = NaN"
| "dadd NegInf PosInf = NaN"
| "dadd PosInf _ = PosInf"
| "dadd _ PosInf = PosInf"
| "dadd NegInf _ = NegInf"
| "dadd _ NegInf = NegInf"

fun dmul :: "double \<Rightarrow> double \<Rightarrow> double" where
  "dmul (Finite a) (Finite b) = Finite (a * b)"
| "dmul NaN _ = NaN"
| "dmul _ NaN = NaN"
| "dmul PosInf (Finite b) = (if 0 < b then PosInf else if b < 0 then NegInf else NaN)"
| "dmul NegInf (Finite b) = (if 0 < b then NegInf else if b < 0 then PosInf else NaN)"
| "dmul (Finite a) PosInf = (if 0 < a then PosInf else if a < 0 then NegInf else NaN)"
| "dmul (Finite a) NegInf = (if 0 < a then NegInf else if a < 0 then PosInf else NaN)"
| "dmul PosInf PosInf = PosInf"
| "dmul NegInf NegInf = PosInf"
| "dmul PosInf NegInf = NegInf"
| "dmul NegInf PosInf = NegInf"

fun ddiv :: "double \<Rightarrow> double \<Rightarrow> double" where
  "ddiv (Finite a) (Finite b) =
     (if b \<noteq> 0 then Finite (a / b)
      else if 0 < a then PosInf else if a < 0 then NegInf else NaN)"
| "ddiv NaN _ = NaN"
| "ddiv _ NaN = NaN"
| "ddiv (Finite a) _ = Finite 0"
| "ddiv PosInf (Finite b) = (if 0 \<le> b then PosInf else NegInf)"
| "ddiv NegInf (Finite b) = (if 0 \<le> b then NegInf else PosInf)"
| "ddiv _ _ = NaN"

fun dless :: "double \<Rightarrow> double \<Rightarrow> bool" where
  "dless (Finite a) (Finite b) = (a < b)"
| "dless NaN _ = False"
| "dless _ NaN = False"
| "dless _ NegInf = False"
| "dless NegInf _ = True"
| "dless PosInf _ = False"
| "dless _ PosInf = True"

fun deq :: "double \<Rightarrow> double \<Rightarrow> bool" where
  "deq (Finite a) (Finite b) = (a = b)"
| "deq PosInf PosInf = True"
| "deq NegInf NegInf = True"
| "deq _ _ = False"

section \<open>Configuration constants and data structures\<close>

definition MAX_CITIES :: int where
  "MAX_CITIES = 20"

definition INF' :: real where
  "INF' = 1000000000"

text \<open>
  Names of the source that clash with names of HOL carry a prime or a suffix:
  \<open>INF'\<close> for \<^verbatim>\<open>INF\<close>, \<open>id'\<close> for \<^verbatim>\<open>PqNode::id\<close>, \<open>type'\<close> for \<^verbatim>\<open>Edge::type\<close>,
  \<open>dist'\<close> for the parameter \<^verbatim>\<open>dist\<close>, \<open>end'\<close> for \<^verbatim>\<open>end\<close>, and \<open>d_km\<close> for the local
  variable \<^verbatim>\<open>d\<close> of the printing loop.
\<close>

text \<open>
  The two enumerations are unscoped C++ enums: an object of the type holds an integer,
  and the named enumerators are the values 0, 1, 2, ... in declaration order. They are
  modelled as integers so that the \<^verbatim>\<open>default\<close> branches of the switches can be stated.
\<close>

type_synonym TrafficLevel = int

definition LOW :: TrafficLevel where "LOW = 0"
definition MODERATE :: TrafficLevel where "MODERATE = 1"
definition HIGH :: TrafficLevel where "HIGH = 2"
definition JAMMED :: TrafficLevel where "JAMMED = 3"

type_synonym RoadType = int

definition MOTORWAY :: RoadType where "MOTORWAY = 0"
definition HIGHWAY :: RoadType where "HIGHWAY = 1"
definition LOCAL :: RoadType where "LOCAL = 2"

lemmas enum_defs = LOW_def MODERATE_def HIGH_def JAMMED_def MOTORWAY_def HIGHWAY_def LOCAL_def

record Edge =
  destination :: int
  distanceKM :: real
  traffic :: TrafficLevel
  type' :: RoadType
  roadName :: string

record PqNode =
  id' :: int
  timeCost :: double

text \<open>\<^verbatim>\<open>PqNode::operator>\<close>, the order of the priority queue.\<close>

definition greater_node :: "PqNode \<Rightarrow> PqNode \<Rightarrow> bool" where
  "greater_node a b = dless (timeCost b) (timeCost a)"

record RoutePlanner =
  adj :: "Edge list list"
  cityNames :: "string list"
  cityCount :: int

section \<open>Cost functions\<close>

definition getTrafficMultiplier :: "TrafficLevel \<Rightarrow> real" where
  "getTrafficMultiplier level =
     (if level = LOW then 1.0
      else if level = MODERATE then 1.2
      else if level = HIGH then 1.5
      else if level = JAMMED then 2.5
      else 1.0)"

definition getTrafficString :: "TrafficLevel \<Rightarrow> string" where
  "getTrafficString level =
     (if level = LOW then ''Clear''
      else if level = MODERATE then ''Moderate''
      else if level = HIGH then ''Heavy''
      else if level = JAMMED then ''Jammed''
      else ''Unknown'')"

definition calculateFuelEfficiency :: "int \<Rightarrow> RoadType \<Rightarrow> real" where
  "calculateFuelEfficiency speed t =
     (let baseEfficiency = (if t = LOCAL then 16.0 - 4.0 else 16.0) in
      if speed > 90 then
        (let excess = real_of_int (speed - 90);
             drop = (excess * excess) / 400.0
         in max 5.0 (baseEfficiency - drop))
      else if speed < 40 then baseEfficiency - 3.0
      else baseEfficiency)"

text \<open>
  The time of one road segment, lines 224 to 229 of \<^verbatim>\<open>findRoute\<close>, under the names of
  its local variables: \<^verbatim>\<open>baseTime = (edge.distanceKM / speed) * 60.0\<close> and
  \<^verbatim>\<open>realTime = baseTime * multiplier\<close>.
\<close>

definition baseTime :: "Edge \<Rightarrow> int \<Rightarrow> double" where
  "baseTime edge speed =
     dmul (ddiv (Finite (distanceKM edge)) (Finite (real_of_int speed))) (Finite 60.0)"

definition realTime :: "Edge \<Rightarrow> int \<Rightarrow> double" where
  "realTime edge speed = dmul (baseTime edge speed) (Finite (getTrafficMultiplier (traffic edge)))"

text \<open>The fuel of one segment, \<^verbatim>\<open>edge.distanceKM / segmentEff\<close> (line 240).\<close>

definition segmentFuel :: "Edge \<Rightarrow> int \<Rightarrow> real" where
  "segmentFuel edge speed = distanceKM edge / calculateFuelEfficiency speed (type' edge)"

section \<open>Map data\<close>

text \<open>
  The members as the constructor leaves them before it calls \<^verbatim>\<open>initializeMapData\<close>:
  twenty empty adjacency vectors, twenty empty names, \<^verbatim>\<open>cityCount = 0\<close>.
\<close>

definition emptyPlanner :: RoutePlanner where
  "emptyPlanner =
     \<lparr>adj = replicate (nat MAX_CITIES) [], cityNames = replicate (nat MAX_CITIES) [],
      cityCount = 0\<rparr>"

definition in_arrays :: "int \<Rightarrow> bool" where
  "in_arrays i = (0 \<le> i \<and> i < MAX_CITIES)"

text \<open>
  \<^verbatim>\<open>addCity\<close> tests only \<^verbatim>\<open>id < MAX_CITIES\<close>; a negative id writes before the array.
  \<^verbatim>\<open>addRoad\<close> tests nothing. A write outside an array is undefined behaviour: the
  model returns \<open>None\<close> there.
\<close>

definition addCity :: "int \<Rightarrow> string \<Rightarrow> RoutePlanner \<Rightarrow> RoutePlanner option" where
  "addCity i name p =
     (if i < MAX_CITIES then
        (if i < 0 then None
         else Some (p\<lparr>cityNames := (cityNames p)[nat i := name],
                       cityCount := max (cityCount p) i\<rparr>))
      else Some p)"

definition push_back :: "Edge list list \<Rightarrow> int \<Rightarrow> Edge \<Rightarrow> Edge list list" where
  "push_back a u e = a[nat u := a ! nat u @ [e]]"

definition addRoad ::
  "int \<Rightarrow> int \<Rightarrow> real \<Rightarrow> TrafficLevel \<Rightarrow> RoadType \<Rightarrow> string \<Rightarrow> RoutePlanner \<Rightarrow> RoutePlanner option" where
  "addRoad u v dist' traf t name p =
     (if in_arrays u \<and> in_arrays v then
        Some (p\<lparr>adj :=
          push_back
            (push_back (adj p) u
               \<lparr>destination = v, distanceKM = dist', traffic = traf, type' = t, roadName = name\<rparr>)
            v \<lparr>destination = u, distanceKM = dist', traffic = traf, type' = t, roadName = name\<rparr>\<rparr>)
      else None)"

text \<open>A sequence of calls of the two public mutators, run in order.\<close>

datatype call =
  AddCity int string
| AddRoad int int real TrafficLevel RoadType string

fun run_call :: "call \<Rightarrow> RoutePlanner \<Rightarrow> RoutePlanner option" where
  "run_call (AddCity i name) p = addCity i name p"
| "run_call (AddRoad u v dist' traf t name) p = addRoad u v dist' traf t name p"

fun run_calls :: "call list \<Rightarrow> RoutePlanner \<Rightarrow> RoutePlanner option" where
  "run_calls [] p = Some p"
| "run_calls (c # cs) p = (case run_call c p of None \<Rightarrow> None | Some p' \<Rightarrow> run_calls cs p')"

definition mapData :: "call list" where
  "mapData =
    [AddCity 1 ''Karachi'', AddCity 2 ''Hyderabad'', AddCity 3 ''Sukkur'',
     AddCity 4 ''Multan'', AddCity 5 ''Faisalabad'', AddCity 6 ''Lahore'',
     AddCity 7 ''Islamabad'', AddCity 8 ''Peshawar'', AddCity 9 ''Quetta'',
     AddCity 10 ''Gwadar'', AddCity 11 ''Sialkot'', AddCity 12 ''Abbottabad'',
     AddCity 13 ''Gilgit'', AddCity 14 ''Sahiwal'', AddCity 15 ''Bahawalpur'',
     AddRoad 1 2 165 JAMMED MOTORWAY ''M-9 Motorway'',
     AddRoad 2 3 330 MODERATE HIGHWAY ''N-5 National Hwy'',
     AddRoad 3 4 420 LOW MOTORWAY ''M-5 Sukkur-Multan'',
     AddRoad 3 9 390 LOW HIGHWAY ''N-65 Highway'',
     AddRoad 4 5 240 LOW MOTORWAY ''M-4 Motorway'',
     AddRoad 4 15 90 MODERATE HIGHWAY ''N-5 Lodhran'',
     AddRoad 15 3 300 LOW HIGHWAY ''N-5 South'',
     AddRoad 4 14 180 MODERATE HIGHWAY ''N-5 GT Road'',
     AddRoad 14 6 170 HIGH HIGHWAY ''N-5 Okara'',
     AddRoad 5 6 150 HIGH MOTORWAY ''M-3 Motorway'',
     AddRoad 5 7 320 LOW MOTORWAY ''M-4 (Goa-Pindi)'',
     AddRoad 6 7 375 MODERATE MOTORWAY ''M-2 Motorway'',
     AddRoad 6 11 130 MODERATE MOTORWAY ''M-11 Sialkot'',
     AddRoad 7 8 180 LOW MOTORWAY ''M-1 Motorway'',
     AddRoad 7 12 120 HIGH HIGHWAY ''N-35 Karakoram'',
     AddRoad 12 13 450 HIGH HIGHWAY ''KKH (Hazara)'',
     AddRoad 1 10 650 LOW HIGHWAY ''N-10 Coastal Hwy'',
     AddRoad 10 9 920 LOW HIGHWAY ''N-85 Highway'',
     AddRoad 9 8 800 LOW HIGHWAY ''N-50 Zhob Route'']"

definition initializeMapData :: "RoutePlanner \<Rightarrow> RoutePlanner option" where
  "initializeMapData p = run_calls mapData p"

section \<open>The priority queue\<close>

text \<open>
  \<^verbatim>\<open>std::priority_queue<PqNode, vector<PqNode>, greater<PqNode>>\<close> keeps its elements in a
  vector: \<^verbatim>\<open>top\<close> is the front of the vector, \<^verbatim>\<open>push\<close> and \<^verbatim>\<open>pop\<close> rearrange it by the
  library's heap algorithms. The library is not part of the program, and which of
  several entries of equal time is on top depends on it: the two operations are
  parameters of the model, and \<open>pq_spec\<close> is what the C++ standard promises of them.
\<close>

record pq_ops =
  pq_push :: "PqNode list \<Rightarrow> PqNode \<Rightarrow> PqNode list"
  pq_pop :: "PqNode list \<Rightarrow> PqNode list"

definition pq_laws :: "(PqNode list \<Rightarrow> bool) \<Rightarrow> pq_ops \<Rightarrow> bool" where
  "pq_laws I H \<longleftrightarrow>
     I [] \<and>
     (\<forall>q x. I q \<longrightarrow> I (pq_push H q x) \<and> mset (pq_push H q x) = add_mset x (mset q)) \<and>
     (\<forall>q. I q \<and> q \<noteq> [] \<longrightarrow>
        I (pq_pop H q) \<and> add_mset (hd q) (mset (pq_pop H q)) = mset q \<and>
        (\<forall>y \<in> set q. \<not> greater_node (hd q) y))"

definition pq_spec :: "pq_ops \<Rightarrow> bool" where
  "pq_spec H \<longleftrightarrow> (\<exists>I. pq_laws I H)"

text \<open>One implementation: a list kept in ascending order of time, new entries after equal ones.\<close>

fun insert_node :: "PqNode \<Rightarrow> PqNode list \<Rightarrow> PqNode list" where
  "insert_node x [] = [x]"
| "insert_node x (y # ys) = (if greater_node y x then x # y # ys else y # insert_node x ys)"

definition sorted_pq :: pq_ops where
  "sorted_pq = \<lparr>pq_push = (\<lambda>q x. insert_node x q), pq_pop = tl\<rparr>"

section \<open>The search\<close>

record SearchState =
  pq :: "PqNode list"
  minTime :: "double list"
  parent :: "int list"
  fuelConsumed :: "real list"
  pathDist :: "real list"

definition initState :: "int \<Rightarrow> pq_ops \<Rightarrow> SearchState" where
  "initState startNode H =
     \<lparr>pq = pq_push H [] \<lparr>id' = startNode, timeCost = Finite 0\<rparr>,
      minTime = (replicate (nat MAX_CITIES) (Finite INF'))[nat startNode := Finite 0],
      parent = replicate (nat MAX_CITIES) (- 1),
      fuelConsumed = replicate (nat MAX_CITIES) 0,
      pathDist = replicate (nat MAX_CITIES) 0\<rparr>"

text \<open>The body of the loop over the roads of \<open>u\<close> (lines 220 to 245).\<close>

definition relax :: "pq_ops \<Rightarrow> int \<Rightarrow> int \<Rightarrow> SearchState \<Rightarrow> Edge \<Rightarrow> SearchState" where
  "relax H speed u st edge =
     (let v = destination edge;
          t = dadd (minTime st ! nat u) (realTime edge speed)
      in if dless t (minTime st ! nat v) then
           st\<lparr>minTime := (minTime st)[nat v := t],
              parent := (parent st)[nat v := u],
              pathDist := (pathDist st)[nat v := pathDist st ! nat u + distanceKM edge],
              fuelConsumed :=
                (fuelConsumed st)[nat v := fuelConsumed st ! nat u + segmentFuel edge speed],
              pq := pq_push H (pq st) \<lparr>id' = v, timeCost = t\<rparr>\<rparr>
         else st)"

text \<open>The body of the while loop (lines 212 to 245): pop, skip a stale entry, else relax.\<close>

definition loop_body :: "pq_ops \<Rightarrow> RoutePlanner \<Rightarrow> int \<Rightarrow> SearchState \<Rightarrow> SearchState" where
  "loop_body H g speed st =
     (let u = id' (hd (pq st));
          currentTime = timeCost (hd (pq st));
          st1 = st\<lparr>pq := pq_pop H (pq st)\<rparr>
      in if dless (minTime st1 ! nat u) currentTime then st1
         else foldl (relax H speed u) st1 (adj g ! nat u))"

text \<open>The while loop. It need not end: \<open>None\<close> is a run that never leaves the loop.\<close>

partial_function (option) search_loop ::
  "pq_ops \<Rightarrow> RoutePlanner \<Rightarrow> int \<Rightarrow> SearchState \<Rightarrow> SearchState option" where
  "search_loop H g speed st =
     (if pq st = [] then Some st else search_loop H g speed (loop_body H g speed st))"

declare search_loop.simps [code]

section \<open>The result\<close>

text \<open>
  \<^verbatim>\<open>printDetailedReceipt\<close> prints; the model returns what it prints as a value: one
  \<open>Leg\<close> per row of the table, and the three totals it is given. A \<open>Leg\<close> holds the
  loop's \<^verbatim>\<open>u\<close> and \<^verbatim>\<open>v\<close> (as \<open>legFrom\<close> and \<open>legTo\<close>) and its four columns
  \<^verbatim>\<open>leg\<close>, \<^verbatim>\<open>rName\<close>, \<^verbatim>\<open>tCond\<close> and \<^verbatim>\<open>d\<close>. The header lines, the split of the time
  into hours and minutes and the fuel cost are presentation and are left out.
\<close>

record Leg =
  legFrom :: int
  legTo :: int
  leg :: string
  rName :: string
  tCond :: string
  d_km :: real

record Receipt =
  legs :: "Leg list"
  totalTime :: double
  totalDist :: real
  totalFuel :: real

text \<open>
  The backtracking loop \<^verbatim>\<open>for (int v = end; v != -1; v = parent[v]) path.push_back(v)\<close>.
  It follows the predecessors and need not end either.
\<close>

partial_function (option) backtrack :: "int list \<Rightarrow> int \<Rightarrow> int list \<Rightarrow> int list option" where
  "backtrack par v path =
     (if v = - 1 then Some path else backtrack par (par ! nat v) (path @ [v]))"

declare backtrack.simps [code]

definition make_leg :: "RoutePlanner \<Rightarrow> int \<Rightarrow> int \<Rightarrow> Leg" where
  "make_leg g u v =
     (let l = cityNames g ! nat u @ ''->'' @ cityNames g ! nat v;
          l' = (if length l > 18 then take 18 l else l)
      in case find (\<lambda>e. destination e = v) (adj g ! nat u) of
           None \<Rightarrow>
             \<lparr>legFrom = u, legTo = v, leg = l', rName = ''Unknown'', tCond = ''Unknown'', d_km = 0\<rparr>
         | Some e \<Rightarrow>
             \<lparr>legFrom = u, legTo = v, leg = l', rName = roadName e,
              tCond = getTrafficString (traffic e), d_km = distanceKM e\<rparr>)"

text \<open>
  The printing loop runs \<open>i\<close> from the last index of \<open>path\<close> down to 1 with
  \<open>u = path[i]\<close> and \<open>v = path[i-1]\<close>: the consecutive pairs of the reversed path.
\<close>

fun make_legs :: "RoutePlanner \<Rightarrow> int list \<Rightarrow> Leg list" where
  "make_legs g (u # v # rest) = make_leg g u v # make_legs g (v # rest)"
| "make_legs g _ = []"

definition printDetailedReceipt ::
  "RoutePlanner \<Rightarrow> int \<Rightarrow> int \<Rightarrow> int list \<Rightarrow> double \<Rightarrow> real \<Rightarrow> real \<Rightarrow> int \<Rightarrow> Receipt option" where
  "printDetailedReceipt g start end' par totalTime' totalDist' totalFuel' speed =
     (case backtrack par end' [] of
        None \<Rightarrow> None
      | Some path \<Rightarrow>
          Some \<lparr>legs = make_legs g (rev path), totalTime = totalTime',
                totalDist = totalDist', totalFuel = totalFuel'\<rparr>)"

datatype error = InvalidCity | Unreachable

text \<open>
  \<^verbatim>\<open>findRoute\<close>. \<open>Inl InvalidCity\<close> is the message "Invalid City ID Selected!",
  \<open>Inl Unreachable\<close> the message "Error: No road connection exists between these
  cities."; \<open>None\<close> is a call that does not return. The members of the class are
  private, so a planner is always one reached through \<open>addCity\<close> and \<open>addRoad\<close>; for
  such a planner (\<open>wf_planner\<close> below) every index that the search reads lies inside
  its array, and the model writes no bounds check.
\<close>

definition findRoute ::
  "pq_ops \<Rightarrow> RoutePlanner \<Rightarrow> int \<Rightarrow> int \<Rightarrow> int \<Rightarrow> (error + Receipt) option" where
  "findRoute H g startNode endNode speed =
     (if startNode < 1 \<or> startNode > cityCount g \<or> endNode < 1 \<or> endNode > cityCount g
      then Some (Inl InvalidCity)
      else
        case search_loop H g speed (initState startNode H) of
          None \<Rightarrow> None
        | Some st \<Rightarrow>
            if deq (minTime st ! nat endNode) (Finite INF') then Some (Inl Unreachable)
            else
              map_option Inr
                (printDetailedReceipt g startNode endNode (parent st) (minTime st ! nat endNode)
                   (pathDist st ! nat endNode) (fuelConsumed st ! nat endNode) speed))"

section \<open>Paths and well-formed planners\<close>

text \<open>
  A path is a list of directed roads, each with the city it leaves: \<open>(u, e)\<close> is the entry
  \<open>e\<close> of \<open>adj[u]\<close>. The empty list is the path from a city to itself.
\<close>

fun is_path :: "RoutePlanner \<Rightarrow> int \<Rightarrow> (int \<times> Edge) list \<Rightarrow> int \<Rightarrow> bool" where
  "is_path g a [] b = (a = b)"
| "is_path g a ((u, e) # p) b =
     (u = a \<and> in_arrays u \<and> e \<in> set (adj g ! nat u) \<and> is_path g (destination e) p b)"

text \<open>The time of a segment as a real number, for a speed that is not 0.\<close>

definition segmentTime :: "int \<Rightarrow> Edge \<Rightarrow> real" where
  "segmentTime speed e =
     distanceKM e / real_of_int speed * 60 * getTrafficMultiplier (traffic e)"

definition path_time :: "int \<Rightarrow> (int \<times> Edge) list \<Rightarrow> real" where
  "path_time speed p = sum_list (map (\<lambda>(u, e). segmentTime speed e) p)"

definition path_dist :: "(int \<times> Edge) list \<Rightarrow> real" where
  "path_dist p = sum_list (map (\<lambda>(u, e). distanceKM e) p)"

definition path_fuel :: "int \<Rightarrow> (int \<times> Edge) list \<Rightarrow> real" where
  "path_fuel speed p = sum_list (map (\<lambda>(u, e). segmentFuel e speed) p)"

text \<open>
  What every planner reached through \<open>addCity\<close> and \<open>addRoad\<close> satisfies: twenty
  adjacency lists, every destination an index of the arrays, \<open>cityCount\<close> below
  \<open>MAX_CITIES\<close>.
\<close>

definition wf_planner :: "RoutePlanner \<Rightarrow> bool" where
  "wf_planner g \<longleftrightarrow>
     length (adj g) = nat MAX_CITIES \<and> length (cityNames g) = nat MAX_CITIES \<and>
     0 \<le> cityCount g \<and> cityCount g < MAX_CITIES \<and>
     list_all (list_all (\<lambda>e. in_arrays (destination e))) (adj g)"

text \<open>No road has a negative length (the data model asks for positive lengths).\<close>

definition nonneg_roads :: "RoutePlanner \<Rightarrow> bool" where
  "nonneg_roads g \<longleftrightarrow> list_all (list_all (\<lambda>e. 0 \<le> distanceKM e)) (adj g)"

text \<open>Every directed entry has its reverse entry with the same attributes.\<close>

definition reverse_edge :: "int \<Rightarrow> Edge \<Rightarrow> Edge" where
  "reverse_edge u e = e\<lparr>destination := u\<rparr>"

definition symmetric_roads :: "RoutePlanner \<Rightarrow> bool" where
  "symmetric_roads g \<longleftrightarrow>
     list_all (\<lambda>u. list_all (\<lambda>e. reverse_edge (int u) e \<in> set (adj g ! nat (destination e)))
                      (adj g ! u))
       [0 ..< nat MAX_CITIES]"

text \<open>What the calls preserve; \<open>nn\<close> says whether the lengths are known to be non-negative.\<close>

definition built_inv :: "bool \<Rightarrow> RoutePlanner \<Rightarrow> bool" where
  "built_inv nn g \<longleftrightarrow>
     wf_planner g \<and> symmetric_roads g \<and> (nn \<longrightarrow> nonneg_roads g)"

text \<open>No two roads leave one city for the same destination.\<close>

definition single_roads :: "RoutePlanner \<Rightarrow> bool" where
  "single_roads g \<longleftrightarrow> list_all (\<lambda>es. distinct (map destination es)) (adj g)"


text \<open>The ids that a sequence of calls registers: \<open>addCity\<close> ignores an id of 20 or more.\<close>

fun registered :: "call list \<Rightarrow> int list" where
  "registered [] = []"
| "registered (AddCity i name # cs) =
     (if i < MAX_CITIES then i # registered cs else registered cs)"
| "registered (AddRoad u v dist' traf t name # cs) = registered cs"

text \<open>The lengths that a sequence of calls gives its roads.\<close>

fun road_lengths :: "call list \<Rightarrow> real list" where
  "road_lengths [] = []"
| "road_lengths (AddCity i name # cs) = road_lengths cs"
| "road_lengths (AddRoad u v dist' traf t name # cs) = dist' # road_lengths cs"

text \<open>The cities along a path that starts at \<open>a\<close>.\<close>

definition cities_of :: "int \<Rightarrow> (int \<times> Edge) list \<Rightarrow> int list" where
  "cities_of a p = a # map (\<lambda>(u, e). destination e) p"

text \<open>The rows that the receipt prints for a path: one \<open>make_leg\<close> per road.\<close>

definition legs_of :: "RoutePlanner \<Rightarrow> (int \<times> Edge) list \<Rightarrow> Leg list" where
  "legs_of g p = map (\<lambda>(u, e). make_leg g u (destination e)) p"

section \<open>Example planners\<close>

text \<open>
  Three planners built from the empty one: a chain of three cities, two cities joined by
  one jammed road, and a third city apart from a road. Three planners built by further
  calls after the constructor has loaded the map: a second, shorter road from Karachi to
  Hyderabad; a new city at the end of a very long road; a new city with the id 19.
\<close>

definition chain_calls :: "call list" where
  "chain_calls =
     [AddCity 1 ''A'', AddCity 2 ''B'', AddCity 3 ''C'',
      AddRoad 1 2 100 LOW MOTORWAY ''AB'', AddRoad 2 3 100 LOW MOTORWAY ''BC'']"


definition island_calls :: "call list" where
  "island_calls =
     [AddCity 1 ''A'', AddCity 2 ''B'', AddCity 3 ''C'', AddRoad 1 2 100 LOW MOTORWAY ''AB'']"



definition gap_calls :: "call list" where
  "gap_calls = mapData @ [AddCity 19 ''Outpost'']"

section \<open>The invariant of the search\<close>

fun fin :: "double \<Rightarrow> real" where
  "fin (Finite r) = r"
| "fin _ = 0"

definition mt :: "SearchState \<Rightarrow> nat \<Rightarrow> real" where
  "mt st v = fin (minTime st ! v)"

text \<open>
  A city is active when the queue holds an entry with its current time, and settled
  when it has been reached and is not active.
\<close>

definition active :: "SearchState \<Rightarrow> nat \<Rightarrow> bool" where
  "active st v \<longleftrightarrow> (\<exists>n \<in> set (pq st). id' n = int v \<and> timeCost n = minTime st ! v)"

definition settled :: "SearchState \<Rightarrow> nat \<Rightarrow> bool" where
  "settled st v \<longleftrightarrow> mt st v < INF' \<and> \<not> active st v"

definition shape :: "(PqNode list \<Rightarrow> bool) \<Rightarrow> SearchState \<Rightarrow> bool" where
  "shape I st \<longleftrightarrow>
     length (minTime st) = 20 \<and> length (parent st) = 20 \<and>
     length (fuelConsumed st) = 20 \<and> length (pathDist st) = 20 \<and>
     (\<forall>v < 20. \<exists>r. minTime st ! v = Finite r \<and> 0 \<le> r \<and> r \<le> INF') \<and>
     (\<forall>n \<in> set (pq st). 0 \<le> id' n \<and> id' n < 20 \<and>
        (\<exists>r. timeCost n = Finite r \<and> mt st (nat (id' n)) \<le> r \<and> r < INF')) \<and>
     distinct (pq st) \<and> I (pq st)"

definition source :: "nat \<Rightarrow> SearchState \<Rightarrow> bool" where
  "source s st \<longleftrightarrow>
     s < 20 \<and> minTime st ! s = Finite 0 \<and> parent st ! s = - 1 \<and>
     pathDist st ! s = 0 \<and> fuelConsumed st ! s = 0"

definition ordered :: "SearchState \<Rightarrow> bool" where
  "ordered st \<longleftrightarrow>
     (\<forall>x < 20. settled st x \<longrightarrow> (\<forall>n \<in> set (pq st). mt st x \<le> fin (timeCost n)))"

definition relaxed :: "RoutePlanner \<Rightarrow> int \<Rightarrow> (nat \<Rightarrow> Edge \<Rightarrow> bool) \<Rightarrow> SearchState \<Rightarrow> bool" where
  "relaxed g speed pending st \<longleftrightarrow>
     (\<forall>x < 20. settled st x \<longrightarrow>
        (\<forall>e \<in> set (adj g ! x). \<not> pending x e \<longrightarrow>
           mt st (nat (destination e)) \<le> mt st x + segmentTime speed e))"

definition tree :: "RoutePlanner \<Rightarrow> int \<Rightarrow> nat \<Rightarrow> (nat \<Rightarrow> nat) \<Rightarrow> SearchState \<Rightarrow> bool" where
  "tree g speed s rank st \<longleftrightarrow>
     (\<forall>v < 20. v \<noteq> s \<and> mt st v < INF' \<longrightarrow>
        (\<exists>u < 20. parent st ! v = int u \<and> settled st u \<and> rank u < rank v \<and>
           (\<exists>e \<in> set (adj g ! u). destination e = int v \<and>
              mt st v = mt st u + segmentTime speed e \<and>
              pathDist st ! v = pathDist st ! u + distanceKM e \<and>
              fuelConsumed st ! v = fuelConsumed st ! u + segmentFuel e speed)))"

definition latest :: "nat \<Rightarrow> SearchState \<Rightarrow> bool" where
  "latest u st \<longleftrightarrow> settled st u \<and> (\<forall>x < 20. settled st x \<longrightarrow> mt st x \<le> mt st u)"

text \<open>The invariant of the while loop, and the invariant of the loop over the roads of \<open>u\<close>
  with the roads \<open>es\<close> still to come.\<close>

definition loop_inv ::
  "(PqNode list \<Rightarrow> bool) \<Rightarrow> RoutePlanner \<Rightarrow> int \<Rightarrow> nat \<Rightarrow> SearchState \<Rightarrow> bool" where
  "loop_inv I g speed s st \<longleftrightarrow>
     shape I st \<and> source s st \<and> ordered st \<and> relaxed g speed (\<lambda>x e. False) st \<and>
     (\<exists>rank. tree g speed s rank st)"

definition edge_inv ::
  "(PqNode list \<Rightarrow> bool) \<Rightarrow> RoutePlanner \<Rightarrow> int \<Rightarrow> nat \<Rightarrow> nat \<Rightarrow> Edge list \<Rightarrow> SearchState \<Rightarrow> bool" where
  "edge_inv I g speed s u es st \<longleftrightarrow>
     shape I st \<and> source s st \<and> ordered st \<and>
     relaxed g speed (\<lambda>x e. x = u \<and> e \<in> set es) st \<and>
     (\<exists>rank. tree g speed s rank st) \<and> latest u st"

text \<open>The state after a relaxation that improves the time of the destination.\<close>

definition fired :: "pq_ops \<Rightarrow> int \<Rightarrow> nat \<Rightarrow> Edge \<Rightarrow> SearchState \<Rightarrow> SearchState" where
  "fired H speed u e st =
     (let v = nat (destination e); t = mt st u + segmentTime speed e in
      st\<lparr>minTime := (minTime st)[v := Finite t],
         parent := (parent st)[v := int u],
         pathDist := (pathDist st)[v := pathDist st ! u + distanceKM e],
         fuelConsumed := (fuelConsumed st)[v := fuelConsumed st ! u + segmentFuel e speed],
         pq := pq_push H (pq st) \<lparr>id' = destination e, timeCost = Finite t\<rparr>\<rparr>)"

definition unsettled_count :: "SearchState \<Rightarrow> nat" where
  "unsettled_count st = card {v. v < 20 \<and> \<not> settled st v}"

section \<open>Cost functions: properties\<close>

text \<open>
  Claim C3. \<open>calculateFuelEfficiency\<close> starts from 16.0, less 4.0 on a local road. Above
  90 km/h it loses \<open>(speed - 90)\<^sup>2 / 400\<close> and is clamped from below at 5.0, however large
  the speed; below 40 km/h it loses a flat 3.0 with no clamp (13.0, or 9.0 on a local
  road); from 40 to 90 it is the base value.
\<close>

theorem fuel_efficiency_formula:
  "calculateFuelEfficiency speed t =
     (if speed > 90 then
        max 5 ((if t = LOCAL then 12 else 16) - (real_of_int speed - 90)\<^sup>2 / 400)
      else if speed < 40 then (if t = LOCAL then 9 else 13)
      else (if t = LOCAL then 12 else 16))
   \<and> (speed > 90 \<longrightarrow> 5 \<le> calculateFuelEfficiency speed t)"
  by (simp add: calculateFuelEfficiency_def Let_def power2_eq_square)

theorem fuel_efficiency_formula_witness:
  "calculateFuelEfficiency 1000000 LOCAL = 5 \<and> 5 \<le> calculateFuelEfficiency 1000000 LOCAL
   \<and> calculateFuelEfficiency 100 MOTORWAY = 15.75
   \<and> calculateFuelEfficiency 39 HIGHWAY = 13 \<and> calculateFuelEfficiency 39 LOCAL = 9
   \<and> calculateFuelEfficiency 40 LOCAL = 12 \<and> calculateFuelEfficiency 90 MOTORWAY = 16"
  using fuel_efficiency_formula [of 1000000 LOCAL] fuel_efficiency_formula [of 100 MOTORWAY]
    fuel_efficiency_formula [of 39 HIGHWAY] fuel_efficiency_formula [of 39 LOCAL]
    fuel_efficiency_formula [of 40 LOCAL] fuel_efficiency_formula [of 90 MOTORWAY]
  by (simp add: enum_defs)

lemma realTime_pos_speed:
  "0 < speed \<Longrightarrow>
   realTime e speed =
     Finite (distanceKM e / real_of_int speed * 60 * getTrafficMultiplier (traffic e))"
  by (simp add: realTime_def baseTime_def)

text \<open>
  Claim C4. For a speed above 0 the time of one segment is
  \<open>distance / speed * 60\<close> times the traffic multiplier, a finite number; the multiplier is
  1.0 for LOW (Clear), 1.2 for MODERATE, 1.5 for HIGH (Heavy), 2.5 for JAMMED and 1.0 for
  every other value of the enum; so a jammed segment takes 2.5 times the time of a clear
  one of the same length.
\<close>

theorem segment_time_formula:
  assumes "0 < speed"
  shows "realTime e speed =
           Finite (distanceKM e / real_of_int speed * 60 * getTrafficMultiplier (traffic e))
         \<and> getTrafficMultiplier LOW = 1 \<and> getTrafficMultiplier MODERATE = 1.2
         \<and> getTrafficMultiplier HIGH = 1.5 \<and> getTrafficMultiplier JAMMED = 2.5
         \<and> (level \<notin> {LOW, MODERATE, HIGH, JAMMED} \<longrightarrow> getTrafficMultiplier level = 1)
         \<and> (traffic e = JAMMED \<and> traffic e' = LOW \<and> distanceKM e' = distanceKM e \<longrightarrow>
              realTime e speed = dmul (Finite 2.5) (realTime e' speed))"
  using assms by (simp add: realTime_pos_speed getTrafficMultiplier_def enum_defs)

theorem segment_time_formula_witness:
  "(0::int) < 50
   \<and> realTime \<lparr>destination = 2, distanceKM = 100, traffic = JAMMED, type' = MOTORWAY,
        roadName = ''M''\<rparr> 50 = Finite 300
   \<and> realTime \<lparr>destination = 2, distanceKM = 100, traffic = LOW, type' = MOTORWAY,
        roadName = ''M''\<rparr> 50 = Finite 120
   \<and> getTrafficMultiplier 7 = 1"
  using segment_time_formula [of 50
      "\<lparr>destination = 2, distanceKM = 100, traffic = JAMMED, type' = MOTORWAY, roadName = ''M''\<rparr>"
      7
      "\<lparr>destination = 2, distanceKM = 100, traffic = LOW, type' = MOTORWAY, roadName = ''M''\<rparr>"]
    segment_time_formula [of 50
      "\<lparr>destination = 2, distanceKM = 100, traffic = LOW, type' = MOTORWAY, roadName = ''M''\<rparr>"
      7
      "\<lparr>destination = 2, distanceKM = 100, traffic = LOW, type' = MOTORWAY, roadName = ''M''\<rparr>"]
  by (simp add: enum_defs getTrafficMultiplier_def)

section \<open>The priority queue: properties\<close>

lemma dless_irrefl [simp]: "\<not> dless a a"
  by (cases a) auto

lemma dless_trans: "dless a b \<Longrightarrow> dless b c \<Longrightarrow> dless a c"
  by (cases a; cases b; cases c) auto

lemma dless_asym: "dless a b \<Longrightarrow> \<not> dless b a"
  by (cases a; cases b) auto

lemma pq_push_facts:
  assumes "pq_laws I H" and "I q"
  shows "I (pq_push H q x)"
    and "mset (pq_push H q x) = add_mset x (mset q)"
    and "set (pq_push H q x) = insert x (set q)"
    and "length (pq_push H q x) = Suc (length q)"
    and "distinct q \<Longrightarrow> x \<notin> set q \<Longrightarrow> distinct (pq_push H q x)"
proof -
  from assms show i: "I (pq_push H q x)" and m: "mset (pq_push H q x) = add_mset x (mset q)"
    by (auto simp: pq_laws_def)
  from m have m': "mset (pq_push H q x) = mset (x # q)" by simp
  from mset_eq_setD [OF m'] show "set (pq_push H q x) = insert x (set q)" by simp
  from mset_eq_length [OF m'] show "length (pq_push H q x) = Suc (length q)" by simp
  from mset_eq_imp_distinct_iff [OF m']
  show "distinct q \<Longrightarrow> x \<notin> set q \<Longrightarrow> distinct (pq_push H q x)" by simp
qed

lemma pq_pop_facts:
  assumes "pq_laws I H" and "I q" and "q \<noteq> []"
  shows "I (pq_pop H q)"
    and "mset q = add_mset (hd q) (mset (pq_pop H q))"
    and "set q = insert (hd q) (set (pq_pop H q))"
    and "length q = Suc (length (pq_pop H q))"
    and "distinct q \<Longrightarrow> hd q \<notin> set (pq_pop H q) \<and> distinct (pq_pop H q)"
    and "\<And>y. y \<in> set q \<Longrightarrow> \<not> dless (timeCost y) (timeCost (hd q))"
proof -
  from assms show "I (pq_pop H q)" and m: "mset q = add_mset (hd q) (mset (pq_pop H q))"
    by (auto simp: pq_laws_def)
  from m have m': "mset q = mset (hd q # pq_pop H q)" by simp
  from mset_eq_setD [OF m'] show "set q = insert (hd q) (set (pq_pop H q))" by simp
  from mset_eq_length [OF m'] show "length q = Suc (length (pq_pop H q))" by simp
  from mset_eq_imp_distinct_iff [OF m']
  show "distinct q \<Longrightarrow> hd q \<notin> set (pq_pop H q) \<and> distinct (pq_pop H q)" by simp
  from assms show "\<And>y. y \<in> set q \<Longrightarrow> \<not> dless (timeCost y) (timeCost (hd q))"
    by (auto simp: pq_laws_def greater_node_def)
qed

lemma mset_insert_node: "mset (insert_node x q) = add_mset x (mset q)"
  by (induction q) auto

lemma set_insert_node: "set (insert_node x q) = insert x (set q)"
  by (induction q) auto

lemma sorted_insert_node:
  "sorted_wrt (\<lambda>a b. \<not> greater_node a b) q \<Longrightarrow>
   sorted_wrt (\<lambda>a b. \<not> greater_node a b) (insert_node x q)"
proof (induction q)
  case Nil
  then show ?case by simp
next
  case (Cons y ys)
  show ?case
  proof (cases "greater_node y x")
    case True
    have "\<not> greater_node x z" if "z \<in> set (y # ys)" for z
    proof
      assume "greater_node x z"
      then have zx: "dless (timeCost z) (timeCost x)" by (simp add: greater_node_def)
      from True have xy: "dless (timeCost x) (timeCost y)" by (simp add: greater_node_def)
      from dless_trans [OF zx xy] have "greater_node y z" by (simp add: greater_node_def)
      moreover from xy zx have "z \<noteq> y" using dless_asym by blast
      ultimately show False using that Cons.prems by auto
    qed
    with True Cons.prems show ?thesis by auto
  next
    case False
    with Cons show ?thesis by (auto simp: set_insert_node)
  qed
qed

lemma sorted_pq_laws: "pq_laws (sorted_wrt (\<lambda>a b. \<not> greater_node a b)) sorted_pq"
  unfolding pq_laws_def sorted_pq_def
proof (intro conjI allI impI)
  fix q :: "PqNode list" 
  assume a: "sorted_wrt (\<lambda>a b. \<not> greater_node a b) q \<and> q \<noteq> []"
  then obtain y ys where q: "q = y # ys" by (cases q) auto
  with a show "sorted_wrt (\<lambda>a b. \<not> greater_node a b) (pq_pop \<lparr>pq_push = \<lambda>q x. insert_node x q, pq_pop = tl\<rparr> q)"
    by simp
  from q show "add_mset (hd q) (mset (pq_pop \<lparr>pq_push = \<lambda>q x. insert_node x q, pq_pop = tl\<rparr> q)) = mset q"
    by simp
  from q a show "\<forall>y\<in>set q. \<not> greater_node (hd q) y"
    by (auto simp: greater_node_def)
qed (simp_all add: sorted_insert_node mset_insert_node)

lemma sorted_pq_spec: "pq_spec sorted_pq"
  unfolding pq_spec_def using sorted_pq_laws by blast

section \<open>Planners built by calls, and searches that relax nothing\<close>

lemma addCity_cityCount:
  "addCity i name p = Some p' \<Longrightarrow>
   cityCount p' = (if i < MAX_CITIES then max (cityCount p) i else cityCount p) \<and> adj p' = adj p"
  by (auto simp: addCity_def split: if_splits)

lemma addRoad_cityCount: "addRoad u v dist' traf t name p = Some p' \<Longrightarrow> cityCount p' = cityCount p"
  by (auto simp: addRoad_def split: if_splits)

lemma run_calls_cityCount:
  "run_calls cs p = Some g \<Longrightarrow> cityCount g = Max (insert (cityCount p) (set (registered cs)))"
proof (induction cs arbitrary: p)
  case Nil
  then show ?case by simp
next
  case (Cons c cs)
  then obtain p' where c: "run_call c p = Some p'" and r: "run_calls cs p' = Some g"
    by (auto split: option.splits)
  from Cons.IH [OF r] have ih: "cityCount g = Max (insert (cityCount p') (set (registered cs)))" .
  show ?case
  proof (cases c)
    case (AddCity i name)
    with c have cc: "cityCount p' = (if i < MAX_CITIES then max (cityCount p) i else cityCount p)"
      using addCity_cityCount by simp
    show ?thesis
    proof (cases "i < MAX_CITIES")
      case True
      have "Max (insert (max (cityCount p) i) (set (registered cs)))
          = Max (insert (cityCount p) (insert i (set (registered cs))))"
        by (cases "registered cs = []") (simp_all add: max.assoc)
      with True ih cc AddCity show ?thesis by simp
    next
      case False
      with ih cc AddCity show ?thesis by simp
    qed
  next
    case (AddRoad u v dist' traf t name)
    with c have "cityCount p' = cityCount p" using addRoad_cityCount by simp
    with ih AddRoad show ?thesis by simp
  qed
qed

lemma foldl_unchanged: "(\<And>e. e \<in> set es \<Longrightarrow> f st e = st) \<Longrightarrow> foldl f st es = st"
  by (induction es) simp_all

lemma pq_push_empty:
  assumes "pq_laws I H"
  shows "pq_push H [] x = [x]"
proof -
  have i: "I []" using assms by (simp add: pq_laws_def)
  from pq_push_facts(3,4) [OF assms i, of x] show ?thesis
    by (cases "pq_push H [] x") auto
qed

lemma pq_pop_single:
  assumes "pq_laws I H"
  shows "pq_pop H [x] = []"
proof -
  have "I []" using assms by (simp add: pq_laws_def)
  from pq_push_facts(1) [OF assms this, of x] have "I [x]" by (simp add: pq_push_empty [OF assms])
  from pq_pop_facts(4) [OF assms this] show ?thesis by simp
qed

lemma search_loop_no_relax:
  assumes laws: "pq_laws I H"
    and s: "0 \<le> s" "s < MAX_CITIES"
    and noop: "\<And>e. e \<in> set (adj g ! nat s) \<Longrightarrow>
      relax H speed s ((initState s H)\<lparr>pq := []\<rparr>) e = (initState s H)\<lparr>pq := []\<rparr>"
  shows "search_loop H g speed (initState s H) = Some ((initState s H)\<lparr>pq := []\<rparr>)"
proof -
  let ?st1 = "(initState s H)\<lparr>pq := []\<rparr>"
  have q: "pq (initState s H) = [\<lparr>id' = s, timeCost = Finite 0\<rparr>]"
    by (simp add: initState_def pq_push_empty [OF laws])
  have m: "minTime ?st1 ! nat s = Finite 0"
    using s by (simp add: initState_def MAX_CITIES_def)
  have "loop_body H g speed (initState s H) = foldl (relax H speed s) ?st1 (adj g ! nat s)"
    using m by (simp add: loop_body_def q pq_pop_single [OF laws] Let_def)
  also have "\<dots> = ?st1" using noop by (rule foldl_unchanged)
  finally have b: "loop_body H g speed (initState s H) = ?st1" .
  have "search_loop H g speed (initState s H) = search_loop H g speed ?st1"
    by (subst search_loop.simps) (simp add: q b)
  also have "\<dots> = Some ?st1" by (subst search_loop.simps) simp
  finally show ?thesis .
qed

lemma findRoute_no_relax:
  assumes laws: "pq_laws I H"
    and c: "cityCount g < MAX_CITIES"
    and s: "1 \<le> s" "s \<le> cityCount g" and t: "1 \<le> t" "t \<le> cityCount g"
    and noop: "\<And>e. e \<in> set (adj g ! nat s) \<Longrightarrow>
      relax H speed s ((initState s H)\<lparr>pq := []\<rparr>) e = (initState s H)\<lparr>pq := []\<rparr>"
  shows "findRoute H g s t speed =
    Some (if s = t then Inr \<lparr>legs = [], totalTime = Finite 0, totalDist = 0, totalFuel = 0\<rparr>
          else Inl Unreachable)"
proof -
  from c s have s': "0 \<le> s" "s < MAX_CITIES" by auto
  have sl: "search_loop H g speed (initState s H) = Some ((initState s H)\<lparr>pq := []\<rparr>)"
    using laws s' noop by (rule search_loop_no_relax)
  have nt: "nat t < 20" "nat s < 20" using c s t by (auto simp: MAX_CITIES_def)
  let ?st1 = "(initState s H)\<lparr>pq := []\<rparr>"
  have fr: "findRoute H g s t speed =
    (if deq (minTime ?st1 ! nat t) (Finite INF') then Some (Inl Unreachable)
     else map_option Inr
       (printDetailedReceipt g s t (parent ?st1) (minTime ?st1 ! nat t)
          (pathDist ?st1 ! nat t) (fuelConsumed ?st1 ! nat t) speed))"
    using s t by (simp add: findRoute_def sl)
  show ?thesis
  proof (cases "s = t")
    case True
    have "backtrack (parent ?st1) t [] = Some [t]"
      using t nt
      by (subst backtrack.simps, subst backtrack.simps)
         (simp add: initState_def MAX_CITIES_def)
    then show ?thesis using True nt unfolding fr
      by (simp add: printDetailedReceipt_def initState_def MAX_CITIES_def INF'_def)
  next
    case False
    then have "nat s \<noteq> nat t" using s t by auto
    then show ?thesis using False nt unfolding fr
      by (simp add: initState_def MAX_CITIES_def)
  qed
qed

lemma realTime_zero_speed:
  "0 \<le> distanceKM e \<Longrightarrow> realTime e 0 = PosInf \<or> realTime e 0 = NaN"
  by (simp add: realTime_def baseTime_def getTrafficMultiplier_def)

lemma relax_infinite:
  "realTime e speed = PosInf \<or> realTime e speed = NaN \<Longrightarrow> minTime st ! nat u = Finite r \<Longrightarrow>
   relax H speed u st e = st"
  by (cases "minTime st ! nat (destination e)") (auto simp: relax_def Let_def)

section \<open>Facts about the map data and the validation\<close>

lemma findRoute_InvalidCity_iff:
  "findRoute H g s t speed = Some (Inl InvalidCity) \<longleftrightarrow>
     (s < 1 \<or> s > cityCount g \<or> t < 1 \<or> t > cityCount g)"
  by (auto simp: findRoute_def split: option.splits)

lemma map_data_facts:
  "case initializeMapData emptyPlanner of
     None \<Rightarrow> False
   | Some app \<Rightarrow> cityCount app = 15"
  by code_simp

section \<open>One relaxation\<close>

lemma multiplier_pos: "0 < getTrafficMultiplier l"
  by (simp add: getTrafficMultiplier_def)

lemma segmentTime_nonneg: "0 < speed \<Longrightarrow> 0 \<le> distanceKM e \<Longrightarrow> 0 \<le> segmentTime speed e"
  using multiplier_pos [of "traffic e"] by (simp add: segmentTime_def)

lemma realTime_segmentTime: "0 < speed \<Longrightarrow> realTime e speed = Finite (segmentTime speed e)"
  by (simp add: realTime_pos_speed segmentTime_def)

lemma wf_planner_edge:
  assumes "wf_planner g" and "u < 20" and "e \<in> set (adj g ! u)"
  shows "0 \<le> destination e" and "nat (destination e) < 20" and "destination e < 20"
proof -
  from assms(1,2) have "adj g ! u \<in> set (adj g)" by (simp add: wf_planner_def MAX_CITIES_def)
  with assms(1,3) have "in_arrays (destination e)"
    by (auto simp: wf_planner_def list_all_iff)
  then show "0 \<le> destination e" and "nat (destination e) < 20" and "destination e < 20"
    by (auto simp: in_arrays_def MAX_CITIES_def)
qed

lemma nonneg_roads_edge:
  assumes "wf_planner g" and "nonneg_roads g" and "u < 20" and "e \<in> set (adj g ! u)"
  shows "0 \<le> distanceKM e"
proof -
  from assms(1,3) have "adj g ! u \<in> set (adj g)" by (simp add: wf_planner_def MAX_CITIES_def)
  with assms(2,4) show ?thesis by (auto simp: nonneg_roads_def list_all_iff)
qed

lemma shape_minTime:
  assumes "shape I st" and "v < 20"
  shows "minTime st ! v = Finite (mt st v)" and "0 \<le> mt st v" and "mt st v \<le> INF'"
  using assms by (auto simp: shape_def mt_def)

lemma shape_pq:
  assumes "shape I st" and "n \<in> set (pq st)"
  shows "0 \<le> id' n" and "nat (id' n) < 20" and "timeCost n = Finite (fin (timeCost n))"
    and "mt st (nat (id' n)) \<le> fin (timeCost n)" and "fin (timeCost n) < INF'"
  using assms by (auto simp: shape_def)

lemma relax_cases:
  assumes "0 < speed" and "shape I st" and "u < 20" and "nat (destination e) < 20"
  shows "relax H speed (int u) st e =
     (if mt st u + segmentTime speed e < mt st (nat (destination e))
      then fired H speed u e st else st)"
  using shape_minTime(1) [OF assms(2,3)] shape_minTime(1) [OF assms(2,4)] assms(1)
  by (simp add: relax_def fired_def Let_def realTime_segmentTime)

lemma fired_fields:
  "minTime (fired H speed u e st) =
     (minTime st)[nat (destination e) := Finite (mt st u + segmentTime speed e)]"
  "parent (fired H speed u e st) = (parent st)[nat (destination e) := int u]"
  "pathDist (fired H speed u e st) =
     (pathDist st)[nat (destination e) := pathDist st ! u + distanceKM e]"
  "fuelConsumed (fired H speed u e st) =
     (fuelConsumed st)[nat (destination e) := fuelConsumed st ! u + segmentFuel e speed]"
  "pq (fired H speed u e st) =
     pq_push H (pq st) \<lparr>id' = destination e, timeCost = Finite (mt st u + segmentTime speed e)\<rparr>"
  by (simp_all add: fired_def Let_def)

lemma edge_inv_fired:
  assumes laws: "pq_laws I H"
    and w: "0 \<le> segmentTime speed e"
    and u: "u < 20" and e: "e \<in> set (adj g ! u)"
    and d: "0 \<le> destination e" "nat (destination e) < 20"
    and inv: "edge_inv I g speed s u (e # es) st"
    and fire: "mt st u + segmentTime speed e < mt st (nat (destination e))"
  shows "edge_inv I g speed s u es (fired H speed u e st)"
    and "\<forall>x < 20. settled (fired H speed u e st) x = settled st x"
proof -
  define v where "v = nat (destination e)"
  define t where "t = mt st u + segmentTime speed e"
  define new where "new = \<lparr>id' = destination e, timeCost = Finite t\<rparr>"
  define st' where "st' = fired H speed u e st"
  have v: "v < 20" and dv: "destination e = int v" using d by (simp_all add: v_def)
  from inv have sh: "shape I st" and so: "source s st" and ord: "ordered st"
    and rel: "relaxed g speed (\<lambda>x e'. x = u \<and> e' \<in> set (e # es)) st"
    and lat: "latest u st"
    by (simp_all add: edge_inv_def)
  from inv obtain rank where tr: "tree g speed s rank st" by (auto simp: edge_inv_def)
  from fire have tv: "t < mt st v" by (simp add: t_def v_def)
  have t0: "0 \<le> t" using shape_minTime(2) [OF sh u] w by (simp add: t_def)
  have tu: "mt st u \<le> t" using w by (simp add: t_def)
  have tI: "t < INF'" using tv shape_minTime(3) [OF sh v] by simp
  have s20: "s < 20" and ms: "mt st s = 0" using so by (simp_all add: source_def mt_def)
  have nset: "\<not> settled st v"
  proof
    assume "settled st v"
    with lat v have "mt st v \<le> mt st u" by (simp add: latest_def)
    with tv tu show False by simp
  qed
  have vu: "v \<noteq> u" using tv tu by auto
  have vs: "v \<noteq> s" using tv t0 ms by auto
  have Ipq: "I (pq st)" and dist: "distinct (pq st)" using sh by (simp_all add: shape_def)
  have len: "length (minTime st) = 20" "length (parent st) = 20"
    "length (fuelConsumed st) = 20" "length (pathDist st) = 20"
    using sh by (simp_all add: shape_def)
  have pq': "pq st' = pq_push H (pq st) new"
    by (simp add: st'_def fired_fields new_def t_def)
  have set': "set (pq st') = insert new (set (pq st))"
    unfolding pq' by (rule pq_push_facts(3) [OF laws Ipq])
  have mT': "minTime st' = (minTime st)[v := Finite t]"
    by (simp add: st'_def fired_fields v_def t_def)
  have par': "parent st' = (parent st)[v := int u]"
    and pd': "pathDist st' = (pathDist st)[v := pathDist st ! u + distanceKM e]"
    and fc': "fuelConsumed st' = (fuelConsumed st)[v := fuelConsumed st ! u + segmentFuel e speed]"
    by (simp_all add: st'_def fired_fields v_def)
  have mt': "mt st' x = (if x = v then t else mt st x)" if "x < 20" for x
    using that v len by (simp add: mt_def mT' nth_list_update)
  have newnot: "new \<notin> set (pq st)"
  proof
    assume a: "new \<in> set (pq st)"
    from shape_pq(4) [OF sh a] have "mt st v \<le> t" by (simp add: new_def dv)
    with tv show False by simp
  qed
  have act_other: "active st' x = active st x" if "x < 20" "x \<noteq> v" for x
    using that by (auto simp: active_def set' mT' new_def dv)
  have act_v: "active st' v"
    using v len by (auto simp: active_def set' mT' new_def dv)
  have settled_eq: "settled st' x = settled st x" if "x < 20" for x
  proof (cases "x = v")
    case True
    with act_v nset show ?thesis by (simp add: settled_def)
  next
    case False
    with that show ?thesis by (simp add: settled_def mt' act_other)
  qed
  then show "\<forall>x < 20. settled (fired H speed u e st) x = settled st x"
    by (simp add: st'_def)
  have sh': "shape I st'"
    unfolding shape_def
  proof (intro conjI)
    show "length (minTime st') = 20" "length (parent st') = 20"
      "length (fuelConsumed st') = 20" "length (pathDist st') = 20"
      using len by (simp_all add: mT' par' pd' fc')
    show "\<forall>x<20. \<exists>r. minTime st' ! x = Finite r \<and> 0 \<le> r \<and> r \<le> INF'"
    proof (intro allI impI)
      fix x :: nat assume x: "x < 20"
      show "\<exists>r. minTime st' ! x = Finite r \<and> 0 \<le> r \<and> r \<le> INF'"
      proof (cases "x = v")
        case True
        with t0 tI v len show ?thesis by (simp add: mT')
      next
        case False
        with shape_minTime [OF sh x] show ?thesis by (simp add: mT')
      qed
    qed
    show "\<forall>n\<in>set (pq st'). 0 \<le> id' n \<and> id' n < 20 \<and>
        (\<exists>r. timeCost n = Finite r \<and> mt st' (nat (id' n)) \<le> r \<and> r < INF')"
    proof
      fix n assume "n \<in> set (pq st')"
      then consider "n = new" | "n \<in> set (pq st)" by (auto simp: set')
      then show "0 \<le> id' n \<and> id' n < 20 \<and>
        (\<exists>r. timeCost n = Finite r \<and> mt st' (nat (id' n)) \<le> r \<and> r < INF')"
      proof cases
        case 1
        with v tI show ?thesis by (simp add: new_def dv mt')
      next
        case 2
        note p = shape_pq [OF sh 2]
        have "mt st' (nat (id' n)) \<le> mt st (nat (id' n))"
          using p(2) tv by (simp add: mt')
        with p(4) have "mt st' (nat (id' n)) \<le> fin (timeCost n)" by simp
        moreover have "id' n < 20" using p(1,2) by simp
        ultimately show ?thesis using p(1,3,5) by blast
      qed
    qed
    show "distinct (pq st')"
      unfolding pq' using dist newnot by (rule pq_push_facts(5) [OF laws Ipq])
    show "I (pq st')" unfolding pq' by (rule pq_push_facts(1) [OF laws Ipq])
  qed
  have so': "source s st'"
    using so vs len by (simp add: source_def mT' par' pd' fc')
  have ord': "ordered st'"
    unfolding ordered_def
  proof (intro allI impI ballI)
    fix x n assume x: "x < 20" and sx: "settled st' x" and n: "n \<in> set (pq st')"
    from sx x have sx0: "settled st x" by (simp add: settled_eq)
    with nset have xv: "x \<noteq> v" by auto
    from n consider "n = new" | "n \<in> set (pq st)" by (auto simp: set')
    then show "mt st' x \<le> fin (timeCost n)"
    proof cases
      case 1
      from lat sx0 x have "mt st x \<le> mt st u" by (simp add: latest_def)
      with tu 1 x xv show ?thesis by (simp add: mt' new_def)
    next
      case 2
      with ord sx0 x xv show ?thesis by (simp add: ordered_def mt')
    qed
  qed
  have rel': "relaxed g speed (\<lambda>x e'. x = u \<and> e' \<in> set es) st'"
    unfolding relaxed_def
  proof (intro allI impI ballI)
    fix x e' assume x: "x < 20" and sx: "settled st' x" and e': "e' \<in> set (adj g ! x)"
      and np: "\<not> (x = u \<and> e' \<in> set es)"
    from sx x have sx0: "settled st x" by (simp add: settled_eq)
    with nset have xv: "x \<noteq> v" by auto
    have le: "mt st' y \<le> mt st y" if "y < 20" for y using that tv by (simp add: mt')
    show "mt st' (nat (destination e')) \<le> mt st' x + segmentTime speed e'"
    proof (cases "x = u \<and> e' = e")
      case True
      with v u vu show ?thesis by (simp add: mt' v_def [symmetric] t_def)
    next
      case False
      with np have "\<not> (x = u \<and> e' \<in> set (e # es))" by auto
      with rel x sx0 e'
      have r: "mt st (nat (destination e')) \<le> mt st x + segmentTime speed e'"
        by (simp add: relaxed_def)
      show ?thesis
      proof (cases "nat (destination e') = v")
        case True
        with r tv x xv v show ?thesis by (simp add: mt')
      next
        case False
        then have "mt st' (nat (destination e')) = mt st (nat (destination e'))"
          by (simp add: mt_def mT')
        with r x xv show ?thesis by (simp add: mt')
      qed
    qed
  qed
  have su: "settled st u" using lat by (simp add: latest_def)
  define rank' where "rank' = rank(v := Suc (rank u))"
  have tr': "tree g speed s rank' st'"
    unfolding tree_def
  proof (intro allI impI)
    fix y assume y: "y < 20" and yy: "y \<noteq> s \<and> mt st' y < INF'"
    show "\<exists>p<20. parent st' ! y = int p \<and> settled st' p \<and> rank' p < rank' y \<and>
           (\<exists>e'\<in>set (adj g ! p). destination e' = int y \<and>
              mt st' y = mt st' p + segmentTime speed e' \<and>
              pathDist st' ! y = pathDist st' ! p + distanceKM e' \<and>
              fuelConsumed st' ! y = fuelConsumed st' ! p + segmentFuel e' speed)"
    proof (cases "y = v")
      case True
      have "parent st' ! y = int u \<and> settled st' u \<and> rank' u < rank' y \<and>
        destination e = int y \<and> mt st' y = mt st' u + segmentTime speed e \<and>
        pathDist st' ! y = pathDist st' ! u + distanceKM e \<and>
        fuelConsumed st' ! y = fuelConsumed st' ! u + segmentFuel e speed"
        using True v u vu su len dv
        by (simp add: settled_eq mt' rank'_def t_def par' pd' fc')
      with u e show ?thesis by blast
    next
      case False
      with yy y have "y \<noteq> s \<and> mt st y < INF'" by (simp add: mt')
      with tr y obtain p e' where p: "p < 20" "parent st ! y = int p" "settled st p"
        "rank p < rank y" and e': "e' \<in> set (adj g ! p)" "destination e' = int y"
        "mt st y = mt st p + segmentTime speed e'"
        "pathDist st ! y = pathDist st ! p + distanceKM e'"
        "fuelConsumed st ! y = fuelConsumed st ! p + segmentFuel e' speed"
        unfolding tree_def by blast
      from p(3) nset have pv: "p \<noteq> v" by auto
      have "parent st' ! y = int p \<and> settled st' p \<and> rank' p < rank' y \<and>
        destination e' = int y \<and> mt st' y = mt st' p + segmentTime speed e' \<and>
        pathDist st' ! y = pathDist st' ! p + distanceKM e' \<and>
        fuelConsumed st' ! y = fuelConsumed st' ! p + segmentFuel e' speed"
        using False pv p e' y
        by (simp add: settled_eq mt' rank'_def par' pd' fc')
      with p(1) e'(1) show ?thesis by blast
    qed
  qed
  have lat': "latest u st'"
    unfolding latest_def
  proof (intro conjI allI impI)
    show "settled st' u" using su u by (simp add: settled_eq)
    fix x assume x: "x < 20" and sx: "settled st' x"
    from sx x have sx0: "settled st x" by (simp add: settled_eq)
    with nset have xv: "x \<noteq> v" by auto
    from lat sx0 x have "mt st x \<le> mt st u" by (simp add: latest_def)
    with x xv u vu show "mt st' x \<le> mt st' u" by (simp add: mt')
  qed
  from sh' so' ord' rel' tr' lat'
  show "edge_inv I g speed s u es (fired H speed u e st)"
    unfolding edge_inv_def st'_def by blast
qed

lemma edge_inv_relax:
  assumes laws: "pq_laws I H" and sp: "0 < speed"
    and g: "wf_planner g" "nonneg_roads g"
    and u: "u < 20" and e: "e \<in> set (adj g ! u)"
    and inv: "edge_inv I g speed s u (e # es) st"
  shows "edge_inv I g speed s u es (relax H speed (int u) st e) \<and>
    (\<forall>x < 20. settled (relax H speed (int u) st e) x = settled st x)"
proof -
  note d = wf_planner_edge [OF g(1) u e]
  have w: "0 \<le> segmentTime speed e"
    using sp nonneg_roads_edge [OF g u e] by (rule segmentTime_nonneg)
  from inv have sh: "shape I st" by (simp add: edge_inv_def)
  note rc = relax_cases [OF sp sh u d(2), of H]
  show ?thesis
  proof (cases "mt st u + segmentTime speed e < mt st (nat (destination e))")
    case True
    with edge_inv_fired [OF laws w u e d(1,2) inv True] rc show ?thesis by simp
  next
    case False
    have "relaxed g speed (\<lambda>x e'. x = u \<and> e' \<in> set es) st"
      unfolding relaxed_def
    proof (intro allI impI ballI)
      fix x e' assume x: "x < 20" "settled st x" "e' \<in> set (adj g ! x)"
        and np: "\<not> (x = u \<and> e' \<in> set es)"
      show "mt st (nat (destination e')) \<le> mt st x + segmentTime speed e'"
      proof (cases "x = u \<and> e' = e")
        case True
        with False show ?thesis by simp
      next
        case False
        with np have "\<not> (x = u \<and> e' \<in> set (e # es))" by auto
        with inv x show ?thesis by (simp add: edge_inv_def relaxed_def)
      qed
    qed
    with inv have "edge_inv I g speed s u es st" by (simp add: edge_inv_def)
    with False rc show ?thesis by simp
  qed
qed

lemma edge_inv_foldl:
  assumes laws: "pq_laws I H" and sp: "0 < speed"
    and g: "wf_planner g" "nonneg_roads g"
    and u: "u < 20"
  shows "set es \<subseteq> set (adj g ! u) \<Longrightarrow> edge_inv I g speed s u es st \<Longrightarrow>
    edge_inv I g speed s u [] (foldl (relax H speed (int u)) st es) \<and>
    (\<forall>x < 20. settled (foldl (relax H speed (int u)) st es) x = settled st x)"
proof (induction es arbitrary: st)
  case Nil
  then show ?case by simp
next
  case (Cons e es)
  from Cons.prems(1) have e: "e \<in> set (adj g ! u)" and es: "set es \<subseteq> set (adj g ! u)"
    by simp_all
  from edge_inv_relax [OF laws sp g u e Cons.prems(2)]
  have 1: "edge_inv I g speed s u es (relax H speed (int u) st e)"
    and 2: "\<forall>x < 20. settled (relax H speed (int u) st e) x = settled st x"
    by simp_all
  from Cons.IH [OF es 1] 2 show ?case by simp
qed

section \<open>One iteration of the while loop\<close>

lemma PqNode_eqI: "id' (m :: PqNode) = id' n \<Longrightarrow> timeCost m = timeCost n \<Longrightarrow> m = n"
  by simp

lemma loop_body_inv:
  assumes laws: "pq_laws I H" and sp: "0 < speed"
    and g: "wf_planner g" "nonneg_roads g"
    and inv: "loop_inv I g speed s st" and ne: "pq st \<noteq> []"
  shows "loop_inv I g speed s (loop_body H g speed st)"
    and "(loop_body H g speed st, st) \<in> measures [unsettled_count, \<lambda>st. length (pq st)]"
proof -
  define n where "n = hd (pq st)"
  define u where "u = nat (id' n)"
  define st1 where "st1 = st\<lparr>pq := pq_pop H (pq st)\<rparr>"
  from inv have sh: "shape I st" and so: "source s st" and ord: "ordered st"
    and rel: "relaxed g speed (\<lambda>x e. False) st"
    by (simp_all add: loop_inv_def)
  from inv obtain rank where tr: "tree g speed s rank st" by (auto simp: loop_inv_def)
  have Ipq: "I (pq st)" and dist: "distinct (pq st)" using sh by (simp_all add: shape_def)
  note pop = pq_pop_facts [OF laws Ipq ne]
  have nin: "n \<in> set (pq st)" using ne by (simp add: n_def)
  note pn = shape_pq [OF sh nin]
  have u: "u < 20" and iu: "id' n = int u" using pn(1,2) by (simp_all add: u_def)
  have set1: "set (pq st) = insert n (set (pq st1))"
    using pop(3) by (simp add: st1_def n_def)
  have nnot: "n \<notin> set (pq st1)" and dist1: "distinct (pq st1)"
    using pop(5) [OF dist] by (simp_all add: st1_def n_def)
  have len1: "length (pq st) = Suc (length (pq st1))" using pop(4) by (simp add: st1_def)
  have min: "fin (timeCost n) \<le> fin (timeCost m)" if "m \<in> set (pq st)" for m
  proof -
    from pop(6) [OF that] have "\<not> dless (timeCost m) (timeCost n)" by (simp add: n_def)
    with shape_pq(3) [OF sh that] pn(3) show ?thesis
      by (metis dless.simps(1) not_le_imp_less)
  qed
  have mt1: "mt st1 x = mt st x" for x by (simp add: mt_def st1_def)
  have f1: "minTime st1 = minTime st" "parent st1 = parent st" "pathDist st1 = pathDist st"
    "fuelConsumed st1 = fuelConsumed st" by (simp_all add: st1_def)
  have sh1: "shape I st1"
    unfolding shape_def
  proof (intro conjI)
    show "length (minTime st1) = 20" "length (parent st1) = 20"
      "length (fuelConsumed st1) = 20" "length (pathDist st1) = 20"
      using sh by (simp_all add: shape_def f1)
    show "\<forall>v<20. \<exists>r. minTime st1 ! v = Finite r \<and> 0 \<le> r \<and> r \<le> INF'"
      using sh by (simp add: shape_def f1)
    show "\<forall>m\<in>set (pq st1). 0 \<le> id' m \<and> id' m < 20 \<and>
        (\<exists>r. timeCost m = Finite r \<and> mt st1 (nat (id' m)) \<le> r \<and> r < INF')"
    proof
      fix m assume "m \<in> set (pq st1)"
      then have "m \<in> set (pq st)" by (simp add: set1)
      with sh show "0 \<le> id' m \<and> id' m < 20 \<and>
        (\<exists>r. timeCost m = Finite r \<and> mt st1 (nat (id' m)) \<le> r \<and> r < INF')"
        unfolding shape_def mt1 by blast
    qed
    show "distinct (pq st1)" by (rule dist1)
    show "I (pq st1)" using pop(1) by (simp add: st1_def)
  qed
  have so1: "source s st1" using so by (simp add: source_def f1)
  have lb: "loop_body H g speed st =
    (if dless (minTime st ! u) (timeCost n) then st1
     else foldl (relax H speed (int u)) st1 (adj g ! u))"
    unfolding iu [symmetric] by (simp add: loop_body_def Let_def n_def u_def st1_def)
  have stale_iff: "dless (minTime st ! u) (timeCost n) \<longleftrightarrow> mt st u < fin (timeCost n)"
    using shape_minTime(1) [OF sh u] pn(3) by (metis dless.simps(1))
  have act1: "active st1 x = active st x" if "x \<noteq> u \<or> timeCost n \<noteq> minTime st ! u" for x
    using that unfolding active_def f1 set1 by (auto simp: iu)
  have "loop_inv I g speed s (loop_body H g speed st) \<and>
    (loop_body H g speed st, st) \<in> measures [unsettled_count, \<lambda>st. length (pq st)]"
  proof (cases "mt st u < fin (timeCost n)")
    case True
    then have ne': "timeCost n \<noteq> minTime st ! u"
      using shape_minTime(1) [OF sh u] by auto
    have set_eq: "settled st1 x = settled st x" for x
      by (simp add: settled_def mt1 act1 ne')
    have ord1: "ordered st1"
      using ord unfolding ordered_def set_eq mt1 set1 by blast
    have rel1: "relaxed g speed (\<lambda>x e. False) st1"
      using rel unfolding relaxed_def set_eq mt1 .
    have tr1: "tree g speed s rank st1"
      using tr unfolding tree_def set_eq mt1 f1 .
    from True have b: "loop_body H g speed st = st1" by (simp add: lb stale_iff)
    from sh1 so1 ord1 rel1 tr1 have "loop_inv I g speed s (loop_body H g speed st)"
      unfolding b loop_inv_def by blast
    moreover have "unsettled_count st1 = unsettled_count st"
      by (simp add: unsettled_count_def set_eq)
    with len1 have "(loop_body H g speed st, st) \<in> measures [unsettled_count, \<lambda>st. length (pq st)]"
      unfolding b by simp
    ultimately show ?thesis by simp
  next
    case False
    with pn(4) have key: "fin (timeCost n) = mt st u" by (simp add: u_def)
    then have tc: "timeCost n = minTime st ! u"
      using shape_minTime(1) [OF sh u] pn(3) by simp
    have au: "active st u" using nin iu tc by (auto simp: active_def)
    then have nsu: "\<not> settled st u" by (simp add: settled_def)
    have nau1: "\<not> active st1 u"
    proof
      assume "active st1 u"
      then obtain m where m: "m \<in> set (pq st1)" "id' m = int u" "timeCost m = minTime st ! u"
        by (auto simp: active_def f1)
      then have "m = n" using iu tc by (intro PqNode_eqI) simp_all
      with m(1) nnot show False by simp
    qed
    have su1: "settled st1 u" using nau1 key pn(5) by (simp add: settled_def mt1)
    have set_other: "settled st1 x = settled st x" if "x \<noteq> u" for x
      using that by (simp add: settled_def mt1 act1)
    have set_mono: "settled st x \<Longrightarrow> settled st1 x" for x
      using nsu set_other by (cases "x = u") auto
    have ord1: "ordered st1"
      unfolding ordered_def
    proof (intro allI impI ballI)
      fix x m assume x: "x < 20" "settled st1 x" and m: "m \<in> set (pq st1)"
      then have m': "m \<in> set (pq st)" by (simp add: set1)
      show "mt st1 x \<le> fin (timeCost m)"
      proof (cases "x = u")
        case True
        with min [OF m'] key show ?thesis by (simp add: mt1)
      next
        case False
        with x set_other have "settled st x" by simp
        with ord x(1) m' show ?thesis by (simp add: ordered_def mt1)
      qed
    qed
    have rel1: "relaxed g speed (\<lambda>x e. x = u \<and> e \<in> set (adj g ! u)) st1"
      unfolding relaxed_def
    proof (intro allI impI ballI)
      fix x e assume x: "x < 20" "settled st1 x" "e \<in> set (adj g ! x)"
        and np: "\<not> (x = u \<and> e \<in> set (adj g ! u))"
      then have "x \<noteq> u" by auto
      with x set_other have "settled st x" by simp
      with rel x show "mt st1 (nat (destination e)) \<le> mt st1 x + segmentTime speed e"
        by (simp add: relaxed_def mt1)
    qed
    have tr1: "tree g speed s rank st1"
      using tr set_mono unfolding tree_def mt1 f1 by blast
    have lat1: "latest u st1"
      unfolding latest_def
    proof (intro conjI allI impI)
      show "settled st1 u" by (rule su1)
      fix x assume x: "x < 20" "settled st1 x"
      show "mt st1 x \<le> mt st1 u"
      proof (cases "x = u")
        case True
        then show ?thesis by simp
      next
        case False
        with x set_other have "settled st x" by simp
        with ord x(1) nin have "mt st x \<le> fin (timeCost n)" by (simp add: ordered_def)
        with key show ?thesis by (simp add: mt1)
      qed
    qed
    have e1: "edge_inv I g speed s u (adj g ! u) st1"
      using sh1 so1 ord1 rel1 tr1 lat1 unfolding edge_inv_def by blast
    define st2 where "st2 = foldl (relax H speed (int u)) st1 (adj g ! u)"
    from edge_inv_foldl [OF laws sp g u subset_refl e1]
    have e2: "edge_inv I g speed s u [] st2"
      and set2: "\<forall>x < 20. settled st2 x = settled st1 x"
      by (simp_all add: st2_def)
    from False have b: "loop_body H g speed st = st2" by (simp add: lb stale_iff st2_def)
    from e2 have li: "loop_inv I g speed s (loop_body H g speed st)"
      unfolding b loop_inv_def edge_inv_def by simp
    have "{v. v < 20 \<and> \<not> settled st2 v} \<subset> {v. v < 20 \<and> \<not> settled st v}"
    proof
      show "{v. v < 20 \<and> \<not> settled st2 v} \<subseteq> {v. v < 20 \<and> \<not> settled st v}"
        using set2 set_mono by auto
      have "u \<in> {v. v < 20 \<and> \<not> settled st v}" using u nsu by simp
      moreover have "u \<notin> {v. v < 20 \<and> \<not> settled st2 v}" using u su1 set2 by simp
      ultimately show "{v. v < 20 \<and> \<not> settled st2 v} \<noteq> {v. v < 20 \<and> \<not> settled st v}"
        by blast
    qed
    then have "unsettled_count st2 < unsettled_count st"
      unfolding unsettled_count_def by (intro psubset_card_mono) simp_all
    then have "(loop_body H g speed st, st) \<in> measures [unsettled_count, \<lambda>st. length (pq st)]"
      unfolding b by simp
    with li show ?thesis by simp
  qed
  then show "loop_inv I g speed s (loop_body H g speed st)"
    and "(loop_body H g speed st, st) \<in> measures [unsettled_count, \<lambda>st. length (pq st)]"
    by simp_all
qed

section \<open>The loop ends\<close>

lemma search_loop_total:
  assumes laws: "pq_laws I H" and sp: "0 < speed"
    and g: "wf_planner g" "nonneg_roads g"
    and inv: "loop_inv I g speed s st"
  shows "\<exists>st'. search_loop H g speed st = Some st' \<and> loop_inv I g speed s st' \<and> pq st' = []"
proof -
  have "wf (measures [unsettled_count, \<lambda>st. length (pq st)])" by simp
  then show ?thesis using inv
  proof (induction st rule: wf_induct_rule)
    case (less st)
    show ?case
    proof (cases "pq st = []")
      case True
      then have "search_loop H g speed st = Some st" by (subst search_loop.simps) simp
      with True less.prems show ?thesis by simp
    next
      case False
      note b = loop_body_inv [OF laws sp g less.prems False]
      from less.IH [OF b(2) b(1)] obtain st' where
        "search_loop H g speed (loop_body H g speed st) = Some st'"
        "loop_inv I g speed s st'" "pq st' = []" by blast
      moreover have "search_loop H g speed st = search_loop H g speed (loop_body H g speed st)"
        using False by (subst search_loop.simps) simp
      ultimately show ?thesis by simp
    qed
  qed
qed

lemma loop_inv_init:
  assumes laws: "pq_laws I H" and s: "s < 20"
  shows "loop_inv I g speed s (initState (int s) H)"
proof -
  define st where "st = initState (int s) H"
  define n0 where "n0 = \<lparr>id' = int s, timeCost = Finite 0\<rparr>"
  have q: "pq st = [n0]" by (simp add: st_def initState_def pq_push_empty [OF laws] n0_def)
  have "I []" using laws by (simp add: pq_laws_def)
  from pq_push_facts(1) [OF laws this, of n0] have Iq: "I [n0]"
    by (simp add: pq_push_empty [OF laws])
  have mT: "minTime st = (replicate 20 (Finite INF'))[s := Finite 0]"
    and f: "parent st = replicate 20 (- 1)" "fuelConsumed st = replicate 20 0"
      "pathDist st = replicate 20 0"
    by (simp_all add: st_def initState_def MAX_CITIES_def)
  have mt: "mt st x = (if x = s then 0 else INF')" if "x < 20" for x
    using that s by (simp add: mt_def mT nth_list_update)
  have act: "active st s" using s by (simp add: active_def q n0_def mT)
  have nset: "\<not> settled st x" if "x < 20" for x
    using that act by (cases "x = s") (simp_all add: settled_def mt)
  have "shape I st"
    unfolding shape_def
  proof (intro conjI)
    show "\<forall>v<20. \<exists>r. minTime st ! v = Finite r \<and> 0 \<le> r \<and> r \<le> INF'"
      using s by (simp add: mT nth_list_update INF'_def)
    show "\<forall>n\<in>set (pq st). 0 \<le> id' n \<and> id' n < 20 \<and>
      (\<exists>r. timeCost n = Finite r \<and> mt st (nat (id' n)) \<le> r \<and> r < INF')"
      using s by (simp add: q n0_def mt INF'_def)
  qed (simp_all add: mT f q Iq)
  moreover have "source s st" using s by (simp add: source_def mT f)
  moreover have "ordered st" using nset by (simp add: ordered_def)
  moreover have "relaxed g speed (\<lambda>x e. False) st" using nset by (simp add: relaxed_def)
  moreover have "tree g speed s (\<lambda>x. 0) st" by (simp add: tree_def mt)
  ultimately show ?thesis unfolding loop_inv_def st_def by blast
qed

section \<open>The final state\<close>

lemma path_sums_Cons:
  "path_time speed ((u, e) # p) = segmentTime speed e + path_time speed p"
  "path_dist ((u, e) # p) = distanceKM e + path_dist p"
  "path_fuel speed ((u, e) # p) = segmentFuel e speed + path_fuel speed p"
  by (simp_all add: path_time_def path_dist_def path_fuel_def)

lemma path_sums_snoc:
  "path_time speed (p @ [(u, e)]) = path_time speed p + segmentTime speed e"
  "path_dist (p @ [(u, e)]) = path_dist p + distanceKM e"
  "path_fuel speed (p @ [(u, e)]) = path_fuel speed p + segmentFuel e speed"
  by (simp_all add: path_time_def path_dist_def path_fuel_def)

lemma path_sums_Nil [simp]:
  "path_time speed [] = 0" "path_dist [] = 0" "path_fuel speed [] = 0"
  by (simp_all add: path_time_def path_dist_def path_fuel_def)

lemma is_path_snoc:
  "is_path g a p b \<Longrightarrow> in_arrays b \<Longrightarrow> e \<in> set (adj g ! nat b) \<Longrightarrow>
   is_path g a (p @ [(b, e)]) (destination e)"
  by (induction p arbitrary: a) auto

lemma is_path_append:
  "is_path g a p b \<Longrightarrow> is_path g b q c \<Longrightarrow> is_path g a (p @ q) c"
  by (induction p arbitrary: a) auto

lemma cities_of_snoc: "cities_of a (p @ [(u, e)]) = cities_of a p @ [destination e]"
  by (simp add: cities_of_def)

lemma make_legs_cities_of:
  "is_path g a p b \<Longrightarrow> make_legs g (cities_of a p) = legs_of g p"
proof (induction p arbitrary: a)
  case Nil
  then show ?case by (simp add: cities_of_def legs_of_def)
next
  case (Cons x p)
  obtain u e where x: "x = (u, e)" by (cases x)
  with Cons.prems have u: "u = a" and r: "is_path g (destination e) p b" by simp_all
  from Cons.IH [OF r] show ?case
    by (simp add: x u cities_of_def legs_of_def)
qed

lemma final_lower_bound:
  assumes sp: "0 < speed" and g: "wf_planner g" "nonneg_roads g"
    and inv: "loop_inv I g speed s st" and e: "pq st = []"
  shows "is_path g (int a) p b \<Longrightarrow> a < 20 \<Longrightarrow>
    0 \<le> b \<and> nat b < 20 \<and> mt st (nat b) \<le> mt st a + path_time speed p"
proof (induction p arbitrary: a)
  case Nil
  then show ?case by auto
next
  case (Cons x p)
  obtain u e where x: "x = (u, e)" by (cases x)
  with Cons.prems have u: "u = int a" and ein: "e \<in> set (adj g ! a)"
    and r: "is_path g (destination e) p b" by auto
  note d = wf_planner_edge [OF g(1) Cons.prems(2) ein]
  from inv have sh: "shape I st" and rel: "relaxed g speed (\<lambda>x e. False) st"
    by (simp_all add: loop_inv_def)
  have w: "0 \<le> segmentTime speed e"
    using sp nonneg_roads_edge [OF g Cons.prems(2) ein] by (rule segmentTime_nonneg)
  have step: "mt st (nat (destination e)) \<le> mt st a + segmentTime speed e"
  proof (cases "mt st a < INF'")
    case True
    then have "settled st a" by (simp add: settled_def active_def e)
    with rel Cons.prems(2) ein show ?thesis by (simp add: relaxed_def)
  next
    case False
    with shape_minTime(3) [OF sh d(2)] w show ?thesis by simp
  qed
  from r d(1) have "is_path g (int (nat (destination e))) p b" by simp
  from Cons.IH [OF this d(2)] step show ?case by (simp add: x path_sums_Cons)
qed

lemma final_tree_path:
  assumes inv: "loop_inv I g speed s st"
  shows "v < 20 \<Longrightarrow> mt st v < INF' \<Longrightarrow>
    \<exists>p. is_path g (int s) p (int v) \<and> path_time speed p = mt st v \<and>
        path_dist p = pathDist st ! v \<and> path_fuel speed p = fuelConsumed st ! v \<and>
        (\<forall>acc. backtrack (parent st) (int v) acc = Some (acc @ rev (cities_of (int s) p)))"
proof -
  from inv obtain rank where tr: "tree g speed s rank st" by (auto simp: loop_inv_def)
  from inv have so: "source s st" by (simp add: loop_inv_def)
  show "v < 20 \<Longrightarrow> mt st v < INF' \<Longrightarrow>
    \<exists>p. is_path g (int s) p (int v) \<and> path_time speed p = mt st v \<and>
        path_dist p = pathDist st ! v \<and> path_fuel speed p = fuelConsumed st ! v \<and>
        (\<forall>acc. backtrack (parent st) (int v) acc = Some (acc @ rev (cities_of (int s) p)))"
  proof (induction "rank v" arbitrary: v rule: less_induct)
    case less
    show ?case
    proof (cases "v = s")
      case True
      have "backtrack (parent st) (int s) acc = Some (acc @ [int s])" for acc
        using so by (subst backtrack.simps, subst backtrack.simps) (simp add: source_def)
      with so True show ?thesis
        by (intro exI [of _ "[]"]) (simp add: source_def mt_def cities_of_def)
    next
      case False
      with tr less.prems obtain u e where u: "u < 20" "parent st ! v = int u" "settled st u"
        "rank u < rank v" and e: "e \<in> set (adj g ! u)" "destination e = int v"
        "mt st v = mt st u + segmentTime speed e"
        "pathDist st ! v = pathDist st ! u + distanceKM e"
        "fuelConsumed st ! v = fuelConsumed st ! u + segmentFuel e speed"
        unfolding tree_def by blast
      from u(3) have "mt st u < INF'" by (simp add: settled_def)
      from less.hyps [OF u(4) u(1) this] obtain p where
        p: "is_path g (int s) p (int u)" "path_time speed p = mt st u"
          "path_dist p = pathDist st ! u" "path_fuel speed p = fuelConsumed st ! u"
          "\<forall>acc. backtrack (parent st) (int u) acc = Some (acc @ rev (cities_of (int s) p))"
        by blast
      have ia: "in_arrays (int u)" using u(1) by (simp add: in_arrays_def MAX_CITIES_def)
      from is_path_snoc [OF p(1) ia, of e] e(1,2)
      have 1: "is_path g (int s) (p @ [(int u, e)]) (int v)" by simp
      have "backtrack (parent st) (int v) acc =
          Some (acc @ rev (cities_of (int s) (p @ [(int u, e)])))" for acc
        using p(5) u(2) e(2) by (subst backtrack.simps) (simp add: cities_of_snoc)
      with 1 p e show ?thesis
        by (intro exI [of _ "p @ [(int u, e)]"]) (simp add: path_sums_snoc)
    qed
  qed
qed

section \<open>What findRoute returns\<close>

lemma findRoute_result:
  assumes spec: "pq_spec H" and sp: "0 < speed"
    and g: "wf_planner g" "nonneg_roads g"
    and s: "1 \<le> s" "s \<le> cityCount g" and t: "1 \<le> t" "t \<le> cityCount g"
  shows "(\<exists>p. is_path g s p t \<and> path_time speed p < INF' \<and> 0 \<le> path_time speed p \<and>
            (\<forall>q. is_path g s q t \<longrightarrow> path_time speed p \<le> path_time speed q) \<and>
            findRoute H g s t speed =
              Some (Inr \<lparr>legs = legs_of g p, totalTime = Finite (path_time speed p),
                         totalDist = path_dist p, totalFuel = path_fuel speed p\<rparr>))
       \<or> ((\<forall>q. is_path g s q t \<longrightarrow> INF' \<le> path_time speed q) \<and>
           findRoute H g s t speed = Some (Inl Unreachable))"
proof -
  from spec obtain I where laws: "pq_laws I H" by (auto simp: pq_spec_def)
  define a where "a = nat s"
  define b where "b = nat t"
  from g(1) s t have a: "a < 20" "s = int a" and b: "b < 20" "t = int b"
    by (auto simp: a_def b_def wf_planner_def MAX_CITIES_def)
  from search_loop_total [OF laws sp g loop_inv_init [OF laws a(1)]]
  obtain st where st: "search_loop H g speed (initState (int a) H) = Some st"
    "loop_inv I g speed a st" "pq st = []" by blast
  from st(2) have sh: "shape I st" and so: "source a st" by (simp_all add: loop_inv_def)
  have ma: "mt st a = 0" using so by (simp add: source_def mt_def)
  note mb = shape_minTime [OF sh b(1)]
  have lower: "mt st b \<le> path_time speed q" if "is_path g s q t" for q
    using final_lower_bound [OF sp g st(2,3), of a q t] that a ma by (simp add: b_def)
  have fr: "findRoute H g s t speed =
    (if mt st b = INF' then Some (Inl Unreachable)
     else map_option Inr
       (printDetailedReceipt g s t (parent st) (Finite (mt st b))
          (pathDist st ! b) (fuelConsumed st ! b) speed))"
    using s t st(1) mb(1) by (simp add: findRoute_def a(2) [symmetric] b_def [symmetric])
  show ?thesis
  proof (cases "mt st b = INF'")
    case True
    with lower fr show ?thesis by simp
  next
    case False
    with mb(3) have lt: "mt st b < INF'" by simp
    from final_tree_path [OF st(2) b(1) lt] obtain p where
      p: "is_path g (int a) p (int b)" "path_time speed p = mt st b"
        "path_dist p = pathDist st ! b" "path_fuel speed p = fuelConsumed st ! b"
        "\<forall>acc. backtrack (parent st) (int b) acc = Some (acc @ rev (cities_of (int a) p))"
      by blast
    from p(5) have bt: "backtrack (parent st) t [] = Some (rev (cities_of s p))"
      by (simp add: a b)
    from p(1) have ip: "is_path g s p t" by (simp add: a b)
    have "findRoute H g s t speed =
              Some (Inr \<lparr>legs = legs_of g p, totalTime = Finite (path_time speed p),
                         totalDist = path_dist p, totalFuel = path_fuel speed p\<rparr>)"
      using False p(2,3,4)
      by (simp add: fr printDetailedReceipt_def bt make_legs_cities_of [OF ip])
    moreover have "\<forall>q. is_path g s q t \<longrightarrow> path_time speed p \<le> path_time speed q"
      using lower p(2) by simp
    ultimately show ?thesis using ip lt p(2) mb(2) by auto
  qed
qed

section \<open>Every planner built by calls is well formed and symmetric\<close>

lemma set_push_back:
  "nat u < length a \<Longrightarrow> i < length a \<Longrightarrow>
   set (push_back a u e ! i) = (if i = nat u then insert e (set (a ! i)) else set (a ! i))"
  by (simp add: push_back_def nth_list_update)

lemma length_push_back [simp]: "length (push_back a u e) = length a"
  by (simp add: push_back_def)

lemma symmetric_roads_iff:
  "symmetric_roads g \<longleftrightarrow>
     (\<forall>u < 20. \<forall>e \<in> set (adj g ! u). reverse_edge (int u) e \<in> set (adj g ! nat (destination e)))"
  by (auto simp: symmetric_roads_def list_all_iff MAX_CITIES_def)

lemma wf_planner_iff:
  "wf_planner g \<longleftrightarrow>
     length (adj g) = 20 \<and> length (cityNames g) = 20 \<and> 0 \<le> cityCount g \<and> cityCount g < 20 \<and>
     (\<forall>u < 20. \<forall>e \<in> set (adj g ! u). in_arrays (destination e))"
  by (auto simp: wf_planner_def list_all_iff MAX_CITIES_def all_set_conv_all_nth [of "adj g"])

lemma nonneg_roads_iff:
  "length (adj g) = 20 \<Longrightarrow>
   nonneg_roads g \<longleftrightarrow> (\<forall>u < 20. \<forall>e \<in> set (adj g ! u). 0 \<le> distanceKM e)"
  by (auto simp: nonneg_roads_def list_all_iff all_set_conv_all_nth [of "adj g"])

lemma built_inv_addCity:
  assumes "addCity i name p = Some p'" and "built_inv nn p"
  shows "built_inv nn p'"
  using assms
  by (auto simp: addCity_def built_inv_def wf_planner_def symmetric_roads_def nonneg_roads_def
      MAX_CITIES_def split: if_splits)

lemma built_inv_addRoad:
  assumes r: "addRoad u v dist' traf t name p = Some p'" and inv: "built_inv nn p"
    and nn: "nn \<longrightarrow> 0 \<le> dist'"
  shows "built_inv nn p'"
proof -
  define euv where
    "euv = \<lparr>destination = v, distanceKM = dist', traffic = traf, type' = t, roadName = name\<rparr>"
  define evu where
    "evu = \<lparr>destination = u, distanceKM = dist', traffic = traf, type' = t, roadName = name\<rparr>"
  from r have u: "in_arrays u" and v: "in_arrays v"
    and p': "p' = p\<lparr>adj := push_back (push_back (adj p) u euv) v evu\<rparr>"
    by (auto simp: addRoad_def euv_def evu_def split: if_splits)
  from inv have wf: "wf_planner p" and sym: "symmetric_roads p" by (simp_all add: built_inv_def)
  from wf have len: "length (adj p) = 20" by (simp add: wf_planner_iff)
  from u v have nu: "nat u < 20" "int (nat u) = u" and nv: "nat v < 20" "int (nat v) = v"
    by (auto simp: in_arrays_def MAX_CITIES_def)
  have set': "set (adj p' ! i) =
      set (adj p ! i) \<union> (if i = nat u then {euv} else {}) \<union> (if i = nat v then {evu} else {})"
    if "i < 20" for i
    using that nu nv len by (auto simp: p' set_push_back)
  have rev: "reverse_edge u euv = evu" "reverse_edge v evu = euv"
    by (simp_all add: reverse_edge_def euv_def evu_def)
  have dd: "destination euv = v" "destination evu = u" "distanceKM euv = dist'"
    "distanceKM evu = dist'" by (simp_all add: euv_def evu_def)
  have fields: "cityNames p' = cityNames p" "cityCount p' = cityCount p" "length (adj p') = 20"
    by (simp_all add: p' len)
  have wf': "wf_planner p'"
    using wf u v dd unfolding wf_planner_iff fields by (auto simp: set' split: if_splits)
  have sym': "symmetric_roads p'"
    unfolding symmetric_roads_iff
  proof (intro allI impI ballI)
    fix i e assume i: "i < 20" and e: "e \<in> set (adj p' ! i)"
    from e i consider "e \<in> set (adj p ! i)" | "i = nat u" "e = euv" | "i = nat v" "e = evu"
      by (auto simp: set' split: if_splits)
    then show "reverse_edge (int i) e \<in> set (adj p' ! nat (destination e))"
    proof cases
      case 1
      with wf i have "nat (destination e) < 20"
        by (rule wf_planner_edge(2))
      moreover from sym i 1 have "reverse_edge (int i) e \<in> set (adj p ! nat (destination e))"
        by (simp add: symmetric_roads_iff)
      ultimately show ?thesis by (simp add: set')
    next
      case 2
      with nu nv show ?thesis by (simp add: set' rev dd)
    next
      case 3
      with nu nv show ?thesis by (simp add: set' rev dd)
    qed
  qed
  have nn': "nonneg_roads p'" if nn
  proof -
    from that inv have "nonneg_roads p" by (simp add: built_inv_def)
    with len have "\<forall>u < 20. \<forall>e \<in> set (adj p ! u). 0 \<le> distanceKM e"
      by (simp add: nonneg_roads_iff)
    moreover from wf' have "length (adj p') = 20" by (simp add: wf_planner_iff)
    ultimately show ?thesis using nn that dd
      by (auto simp: nonneg_roads_iff set' split: if_splits)
  qed
  from wf' sym' nn' show ?thesis by (simp add: built_inv_def)
qed

lemma built_inv_run_calls:
  "run_calls cs p = Some g \<Longrightarrow> built_inv nn p \<Longrightarrow>
   (nn \<longrightarrow> list_all (\<lambda>x. 0 \<le> x) (road_lengths cs)) \<Longrightarrow> built_inv nn g"
proof (induction cs arbitrary: p)
  case Nil
  then show ?case by simp
next
  case (Cons c cs)
  from Cons.prems(1) obtain p' where c: "run_call c p = Some p'" and r: "run_calls cs p' = Some g"
    by (auto split: option.splits)
  show ?case
  proof (cases c)
    case (AddCity i name)
    with c Cons.prems(2) have "built_inv nn p'" using built_inv_addCity by simp
    with Cons.IH [OF r] Cons.prems(3) AddCity show ?thesis by simp
  next
    case (AddRoad u v dist' traf t name)
    with c Cons.prems(2,3) have "built_inv nn p'" using built_inv_addRoad by simp
    with Cons.IH [OF r] Cons.prems(3) AddRoad show ?thesis by simp
  qed
qed

lemma built_inv_empty: "built_inv nn emptyPlanner"
  by (simp add: built_inv_def wf_planner_def symmetric_roads_def nonneg_roads_def
      emptyPlanner_def MAX_CITIES_def list_all_iff)

lemma built_wf:
  assumes "run_calls cs emptyPlanner = Some g"
  shows "wf_planner g" and "symmetric_roads g"
  using built_inv_run_calls [OF assms built_inv_empty, of False] by (simp_all add: built_inv_def)

lemma built_nonneg:
  assumes "run_calls cs emptyPlanner = Some g" and "list_all (\<lambda>x. 0 \<le> x) (road_lengths cs)"
  shows "nonneg_roads g"
  using built_inv_run_calls [OF assms(1) built_inv_empty, of True] assms(2)
  by (simp add: built_inv_def)

lemma built_in_arrays:
  assumes "wf_planner g" and "1 \<le> s" and "s \<le> cityCount g"
  shows "in_arrays s" and "nat s < 20"
  using assms by (auto simp: wf_planner_iff in_arrays_def MAX_CITIES_def)

section \<open>Paths: reversal, speed, single roads\<close>

lemma segmentTime_reverse_edge [simp]: "segmentTime speed (reverse_edge u e) = segmentTime speed e"
  by (simp add: segmentTime_def reverse_edge_def)


lemma segmentTime_antimono:
  assumes "0 < s1" and "s1 \<le> s2" and "0 \<le> distanceKM e"
  shows "segmentTime s2 e \<le> segmentTime s1 e"
proof -
  have 1: "distanceKM e / real_of_int s2 \<le> distanceKM e / real_of_int s1"
    using assms by (intro divide_left_mono) simp_all
  have 2: "distanceKM e / real_of_int s2 * 60 \<le> distanceKM e / real_of_int s1 * 60"
    using 1 by (rule mult_right_mono) simp
  have 3: "0 \<le> getTrafficMultiplier (traffic e)"
    using multiplier_pos [of "traffic e"] by simp
  show ?thesis unfolding segmentTime_def using 2 3 by (rule mult_right_mono)
qed

lemma path_time_antimono:
  assumes g: "wf_planner g" "nonneg_roads g" and s: "0 < s1" "s1 \<le> s2"
  shows "is_path g a p b \<Longrightarrow> path_time s2 p \<le> path_time s1 p"
proof (induction p arbitrary: a)
  case Nil
  then show ?case by simp
next
  case (Cons x p)
  obtain u e where x: "x = (u, e)" by (cases x)
  with Cons.prems have u: "in_arrays u" and e: "e \<in> set (adj g ! nat u)"
    and r: "is_path g (destination e) p b" by auto
  from u have "nat u < 20" by (auto simp: in_arrays_def MAX_CITIES_def)
  from nonneg_roads_edge [OF g this e] s have "segmentTime s2 e \<le> segmentTime s1 e"
    by (intro segmentTime_antimono)
  with Cons.IH [OF r] show ?case by (simp add: x path_sums_Cons)
qed






section \<open>Speed validation\<close>

lemma findRoute_zero_speed:
  assumes "pq_spec H" and "run_calls cs emptyPlanner = Some g"
    and "list_all (\<lambda>x. 0 \<le> x) (road_lengths cs)"
    and "1 \<le> s" and "s \<le> cityCount g" and "1 \<le> t" and "t \<le> cityCount g"
  shows "findRoute H g s t 0 =
    Some (if s = t then Inr \<lparr>legs = [], totalTime = Finite 0, totalDist = 0, totalFuel = 0\<rparr>
          else Inl Unreachable)"
proof -
  note wf = built_wf(1) [OF assms(2)] and nn = built_nonneg [OF assms(2,3)]
  from assms(1) obtain I where laws: "pq_laws I H" by (auto simp: pq_spec_def)
  from wf have c: "cityCount g < MAX_CITIES" by (simp add: wf_planner_def)
  have ns: "nat s < 20" using wf assms(4,5) by (rule built_in_arrays)
  have m: "minTime ((initState s H)\<lparr>pq := []\<rparr>) ! nat s = Finite 0"
    using ns by (simp add: initState_def MAX_CITIES_def)
  have "relax H 0 s ((initState s H)\<lparr>pq := []\<rparr>) e = (initState s H)\<lparr>pq := []\<rparr>"
    if "e \<in> set (adj g ! nat s)" for e
    using realTime_zero_speed [OF nonneg_roads_edge [OF wf nn ns that]] m
    by (rule relax_infinite)
  with laws c assms(4-7) show ?thesis by (rule findRoute_no_relax)
qed

text \<open>
  Claim C2, as amended. \<open>findRoute\<close> has no check of the speed. With speed 0 and no
  road of negative length the division by zero makes every segment time \<open>+\<infinity>\<close> (or a
  NaN, for a road of length 0), no road is relaxed, and the call reports Unreachable for
  two distinct cities in \<open>1..cityCount\<close>, and the empty route of time 0 from a city to
  itself.
\<close>

theorem zero_speed_unchecked:
  assumes "pq_spec H" and "run_calls cs emptyPlanner = Some g"
    and "list_all (\<lambda>x. 0 \<le> x) (road_lengths cs)"
    and "1 \<le> s" and "s \<le> cityCount g" and "1 \<le> t" and "t \<le> cityCount g"
  shows "findRoute H g s t 0 =
    Some (if s = t then Inr \<lparr>legs = [], totalTime = Finite 0, totalDist = 0, totalFuel = 0\<rparr>
          else Inl Unreachable)"
  using assms by (rule findRoute_zero_speed)

theorem zero_speed_unchecked_witness:
  "case initializeMapData emptyPlanner of
     None \<Rightarrow> False
   | Some app \<Rightarrow>
       findRoute sorted_pq app 6 7 0 = Some (Inl Unreachable) \<and>
       findRoute sorted_pq app 6 6 0 =
         Some (Inr \<lparr>legs = [], totalTime = Finite 0, totalDist = 0, totalFuel = 0\<rparr>)"
proof (cases "initializeMapData emptyPlanner")
  case None
  with map_data_facts show ?thesis by simp
next
  case (Some app)
  then have b: "run_calls mapData emptyPlanner = Some app" by (simp add: initializeMapData_def)
  have l: "list_all (\<lambda>x. 0 \<le> x) (road_lengths mapData)" by (simp add: mapData_def)
  from map_data_facts Some have "cityCount app = 15" by simp
  with zero_speed_unchecked [OF sorted_pq_spec b l, of 6 7]
       zero_speed_unchecked [OF sorted_pq_spec b l, of 6 6] Some
  show ?thesis by simp
qed

theorem zero_speed_counterexample:
  "Option.bind (initializeMapData emptyPlanner) (\<lambda>app. findRoute sorted_pq app 1 2 0) =
     Some (Inl Unreachable)"
  by code_simp

section \<open>City validation\<close>

text \<open>
  Claim C10. The validation of \<open>findRoute\<close> is the range check
  \<open>1 \<le> id \<le> cityCount\<close>, and \<open>cityCount\<close> is the highest id registered. With only the
  ids 1 and 5 registered, the unregistered id 3 is accepted, and a query between 3 and
  another city in range reports Unreachable.
\<close>

theorem range_check_not_registration:
  assumes "pq_spec H" and "run_calls cs emptyPlanner = Some g"
  shows "cityCount g = Max (set (0 # registered cs))
    \<and> (findRoute H g s t speed = Some (Inl InvalidCity) \<longleftrightarrow>
         (s < 1 \<or> s > cityCount g \<or> t < 1 \<or> t > cityCount g))
    \<and> (cs = [AddCity 1 a, AddCity 5 b] \<and> 1 \<le> x \<and> x \<le> 5 \<and> x \<noteq> 3 \<longrightarrow>
         3 \<notin> set (registered cs) \<and>
         findRoute H g 3 x speed = Some (Inl Unreachable) \<and>
         findRoute H g x 3 speed = Some (Inl Unreachable))"
proof (intro conjI impI)
  from run_calls_cityCount [OF assms(2)]
  show cc: "cityCount g = Max (set (0 # registered cs))" by (simp add: emptyPlanner_def)
  show "findRoute H g s t speed = Some (Inl InvalidCity) \<longleftrightarrow>
         (s < 1 \<or> s > cityCount g \<or> t < 1 \<or> t > cityCount g)"
    by (rule findRoute_InvalidCity_iff)
next
  assume ex: "cs = [AddCity 1 a, AddCity 5 b] \<and> 1 \<le> x \<and> x \<le> 5 \<and> x \<noteq> 3"
  from assms(1) obtain I where laws: "pq_laws I H" by (auto simp: pq_spec_def)
  from ex show "3 \<notin> set (registered cs)" by (simp add: MAX_CITIES_def)
  from ex assms(2) have g: "adj g = replicate 20 []" and c: "cityCount g = 5"
    by (auto simp: emptyPlanner_def addCity_def MAX_CITIES_def split: if_splits)
  have e: "adj g ! nat y = []" if "1 \<le> y" "y \<le> 5" for y
    using that by (simp add: g)
  have "findRoute H g 3 x speed = Some (if 3 = x then
      Inr \<lparr>legs = [], totalTime = Finite 0, totalDist = 0, totalFuel = 0\<rparr> else Inl Unreachable)"
    using laws by (rule findRoute_no_relax) (use ex c e [of 3] in \<open>simp_all add: MAX_CITIES_def\<close>)
  with ex show "findRoute H g 3 x speed = Some (Inl Unreachable)" by simp
  have "findRoute H g x 3 speed = Some (if x = 3 then
      Inr \<lparr>legs = [], totalTime = Finite 0, totalDist = 0, totalFuel = 0\<rparr> else Inl Unreachable)"
    using laws by (rule findRoute_no_relax) (use ex c e [of x] in \<open>simp_all add: MAX_CITIES_def\<close>)
  with ex show "findRoute H g x 3 speed = Some (Inl Unreachable)" by simp
qed

theorem range_check_not_registration_witness:
  "case run_calls [AddCity 1 ''A'', AddCity 5 ''E''] emptyPlanner of
     None \<Rightarrow> False
   | Some g \<Rightarrow>
       cityCount g = 5 \<and> 3 \<notin> set (registered [AddCity 1 ''A'', AddCity 5 ''E'']) \<and>
       findRoute sorted_pq g 3 1 60 = Some (Inl Unreachable) \<and>
       findRoute sorted_pq g 1 3 60 = Some (Inl Unreachable) \<and>
       findRoute sorted_pq g 3 5 60 \<noteq> Some (Inl InvalidCity)"
proof (cases "run_calls [AddCity 1 ''A'', AddCity 5 ''E''] emptyPlanner")
  case None
  then show ?thesis by (simp add: addCity_def MAX_CITIES_def)
next
  case (Some g)
  from range_check_not_registration [OF sorted_pq_spec Some, of 3 5 60 "''A''" "''E''" 1]
  show ?thesis using Some by (simp add: MAX_CITIES_def)
qed

text \<open>
  Claim C6, as amended. When every id from 1 to the highest registered id is
  registered, a query whose start or end is not a registered id fails with InvalidCity;
  in general the queries that fail so are those with an id outside \<open>1..cityCount\<close>.
\<close>

theorem invalid_city_without_gaps:
  assumes "run_calls cs emptyPlanner = Some g"
    and "\<forall>i. 1 \<le> i \<and> i \<le> Max (set (0 # registered cs)) \<longrightarrow> i \<in> set (registered cs)"
    and "s \<notin> set (registered cs) \<or> t \<notin> set (registered cs)"
  shows "findRoute H g s t speed = Some (Inl InvalidCity)"
proof -
  from run_calls_cityCount [OF assms(1)]
  have "cityCount g = Max (set (0 # registered cs))" by (simp add: emptyPlanner_def)
  with assms(2,3) have "s < 1 \<or> s > cityCount g \<or> t < 1 \<or> t > cityCount g"
    by (metis not_le_imp_less)
  then show ?thesis by (simp add: findRoute_InvalidCity_iff)
qed

theorem invalid_city_without_gaps_witness:
  "case run_calls mapData emptyPlanner of
     None \<Rightarrow> False
   | Some app \<Rightarrow> findRoute sorted_pq app 99 1 60 = Some (Inl InvalidCity)"
proof (cases "run_calls mapData emptyPlanner")
  case None
  with map_data_facts show ?thesis by (simp add: initializeMapData_def)
next
  case (Some app)
  have r: "registered mapData = [1, 2, 3, 4, 5, 6, 7, 8, 9, 10, 11, 12, 13, 14, 15]"
    by (simp add: mapData_def MAX_CITIES_def)
  have "\<forall>i::int. 1 \<le> i \<and> i \<le> 15 \<longrightarrow> i \<in> {1, 2, 3, 4, 5, 6, 7, 8, 9, 10, 11, 12, 13, 14, 15}"
    by (simp, presburger)
  with invalid_city_without_gaps [OF Some, of 99 1 sorted_pq 60] Some
  show ?thesis by (simp add: r)
qed

theorem invalid_city_counterexample:
  "Option.bind (run_calls gap_calls emptyPlanner) (\<lambda>app. findRoute sorted_pq app 17 1 60) =
     Some (Inl Unreachable)
   \<and> registered gap_calls = [1, 2, 3, 4, 5, 6, 7, 8, 9, 10, 11, 12, 13, 14, 15, 19]"
  by code_simp

section \<open>The route found\<close>


lemma chain_facts:
  "case run_calls chain_calls emptyPlanner of
     None \<Rightarrow> False
   | Some g \<Rightarrow>
       cityCount g = 3 \<and> single_roads g \<and>
       is_path g 1
         [(1, \<lparr>destination = 2, distanceKM = 100, traffic = LOW, type' = MOTORWAY,
               roadName = ''AB''\<rparr>),
          (2, \<lparr>destination = 3, distanceKM = 100, traffic = LOW, type' = MOTORWAY,
               roadName = ''BC''\<rparr>)] 3 \<and>
       findRoute sorted_pq g 1 3 100 =
         Some (Inr \<lparr>legs =
           [\<lparr>legFrom = 1, legTo = 2, leg = ''A->B'', rName = ''AB'', tCond = ''Clear'',
             d_km = 100\<rparr>,
            \<lparr>legFrom = 2, legTo = 3, leg = ''B->C'', rName = ''BC'', tCond = ''Clear'',
             d_km = 100\<rparr>],
           totalTime = Finite 120, totalDist = 200, totalFuel = 800 / 63\<rparr>)"
  by code_simp



text \<open>
  Claim C5. For a planner built by calls with no negative road length, start and end in
  \<open>1..cityCount\<close> and a speed that is not negative: when no path joins start and end,
  \<open>findRoute\<close> fails with Unreachable; and a receipt it returns never carries the
  sentinel or an infinity as its time, but a finite time below \<open>INF\<close>.
\<close>

theorem unreachable_reported:
  assumes "pq_spec H" and "run_calls cs emptyPlanner = Some g"
    and "list_all (\<lambda>x. 0 \<le> x) (road_lengths cs)"
    and "0 \<le> speed" and "1 \<le> s" and "s \<le> cityCount g" and "1 \<le> t" and "t \<le> cityCount g"
  shows "((\<forall>p. \<not> is_path g s p t) \<longrightarrow> findRoute H g s t speed = Some (Inl Unreachable))
    \<and> (\<forall>r. findRoute H g s t speed = Some (Inr r) \<longrightarrow>
          (\<exists>x. totalTime r = Finite x \<and> 0 \<le> x \<and> x < INF'))"
proof (cases "speed = 0")
  case True
  have "\<not> (\<forall>p. \<not> is_path g s p t)" if "s = t"
    using that is_path.simps(1) [of g s t] by blast
  with findRoute_zero_speed [OF assms(1-3,5-8)] True show ?thesis
    by (auto simp: INF'_def)
next
  case False
  with assms(4) have sp: "0 < speed" by simp
  note wf = built_wf(1) [OF assms(2)] and nn = built_nonneg [OF assms(2,3)]
  from findRoute_result [OF assms(1) sp wf nn assms(5-8)] show ?thesis by auto
qed

lemma island_facts:
  "case run_calls island_calls emptyPlanner of
     None \<Rightarrow> False
   | Some g \<Rightarrow>
       cityCount g = 3 \<and> list_all (\<lambda>e. destination e = 2) (adj g ! 1) \<and>
       list_all (\<lambda>e. destination e = 1) (adj g ! 2)"
  by code_simp

theorem unreachable_reported_witness:
  "case run_calls island_calls emptyPlanner of
     None \<Rightarrow> False
   | Some g \<Rightarrow> findRoute sorted_pq g 1 3 60 = Some (Inl Unreachable)"
proof (cases "run_calls island_calls emptyPlanner")
  case None
  with island_facts show ?thesis by simp
next
  case (Some g)
  with island_facts have c: "cityCount g = 3"
    and a1: "\<And>e. e \<in> set (adj g ! 1) \<Longrightarrow> destination e = 2"
    and a2: "\<And>e. e \<in> set (adj g ! 2) \<Longrightarrow> destination e = 1"
    by (simp_all add: list_all_iff)
  have stay: "is_path g a p b \<Longrightarrow> a = 1 \<or> a = 2 \<Longrightarrow> b = 1 \<or> b = 2" for a p b
  proof (induction p arbitrary: a)
    case Nil
    then show ?case by simp
  next
    case (Cons x p)
    obtain u e where x: "x = (u, e)" by (cases x)
    with Cons.prems have e: "e \<in> set (adj g ! nat a)" and r: "is_path g (destination e) p b"
      by auto
    from Cons.prems(2) e a1 a2 have "destination e = 1 \<or> destination e = 2" by auto
    with Cons.IH [OF r] show ?case .
  qed
  have no: "\<forall>p. \<not> is_path g 1 p 3" using stay [of 1 _ 3] by auto
  have l: "list_all (\<lambda>x. 0 \<le> x) (road_lengths island_calls)" by (simp add: island_calls_def)
  from unreachable_reported [OF sorted_pq_spec Some l, of 60 1 3] c no
  have "findRoute sorted_pq g 1 3 60 = Some (Inl Unreachable)" by simp
  with Some show ?thesis by simp
qed



text \<open>
  Claim C8. For a planner built by calls with no negative road length and two speeds
  \<open>0 < s1 < s2\<close>: no path takes longer at \<open>s2\<close> than at \<open>s1\<close>, and when \<open>findRoute\<close>
  returns a receipt at \<open>s1\<close> it returns one at \<open>s2\<close> whose total time is not greater.
\<close>

theorem faster_speed_not_slower:
  assumes "pq_spec H" and "run_calls cs emptyPlanner = Some g"
    and "list_all (\<lambda>x. 0 \<le> x) (road_lengths cs)"
    and "0 < s1" and "s1 < s2"
    and "1 \<le> a" and "a \<le> cityCount g" and "1 \<le> b" and "b \<le> cityCount g"
  shows "(\<forall>u p v. is_path g u p v \<longrightarrow> path_time s2 p \<le> path_time s1 p)
    \<and> (\<forall>r1. findRoute H g a b s1 = Some (Inr r1) \<longrightarrow>
          (\<exists>r2 x1 x2. findRoute H g a b s2 = Some (Inr r2) \<and>
             totalTime r1 = Finite x1 \<and> totalTime r2 = Finite x2 \<and> x2 \<le> x1))"
proof (intro conjI allI impI)
  note wf = built_wf(1) [OF assms(2)] and nn = built_nonneg [OF assms(2,3)]
  have s2: "0 < s2" and le: "s1 \<le> s2" using assms(4,5) by simp_all
  show mono: "path_time s2 p \<le> path_time s1 p" if "is_path g u p v" for u p v
    using wf nn assms(4) le that by (rule path_time_antimono)
  fix r1 assume r1: "findRoute H g a b s1 = Some (Inr r1)"
  from findRoute_result [OF assms(1,4) wf nn assms(6-9)] r1
  obtain p where p: "is_path g a p b" "path_time s1 p < INF'"
    "totalTime r1 = Finite (path_time s1 p)"
    by auto
  from mono [OF p(1)] p(2) have lt: "path_time s2 p < INF'" by simp
  from findRoute_result [OF assms(1) s2 wf nn assms(6-9)] p(1) lt
  obtain q where q: "\<forall>q'. is_path g a q' b \<longrightarrow> path_time s2 q \<le> path_time s2 q'"
    "findRoute H g a b s2 =
        Some (Inr \<lparr>legs = legs_of g q, totalTime = Finite (path_time s2 q),
                   totalDist = path_dist q, totalFuel = path_fuel s2 q\<rparr>)"
    by fastforce
  from q(1) p(1) mono [OF p(1)] have "path_time s2 q \<le> path_time s1 p" by fastforce
  with q(2) p(3)
  show "\<exists>r2 x1 x2. findRoute H g a b s2 = Some (Inr r2) \<and>
             totalTime r1 = Finite x1 \<and> totalTime r2 = Finite x2 \<and> x2 \<le> x1"
    by simp
qed

theorem faster_speed_not_slower_witness:
  "case run_calls chain_calls emptyPlanner of
     None \<Rightarrow> False
   | Some g \<Rightarrow>
       (\<exists>r2 x2. findRoute sorted_pq g 1 3 160 = Some (Inr r2) \<and>
          totalTime r2 = Finite x2 \<and> x2 \<le> 120)"
proof (cases "run_calls chain_calls emptyPlanner")
  case None
  with chain_facts show ?thesis by simp
next
  case (Some g)
  from chain_facts Some have c: "cityCount g = 3"
    and r: "findRoute sorted_pq g 1 3 100 =
         Some (Inr \<lparr>legs =
           [\<lparr>legFrom = 1, legTo = 2, leg = ''A->B'', rName = ''AB'', tCond = ''Clear'',
             d_km = 100\<rparr>,
            \<lparr>legFrom = 2, legTo = 3, leg = ''B->C'', rName = ''BC'', tCond = ''Clear'',
             d_km = 100\<rparr>],
           totalTime = Finite 120, totalDist = 200, totalFuel = 800 / 63\<rparr>)"
    by simp_all
  have l: "list_all (\<lambda>x. 0 \<le> x) (road_lengths chain_calls)" by (simp add: chain_calls_def)
  from faster_speed_not_slower [OF sorted_pq_spec Some l, of 100 160 1 3] c r
  have "\<exists>r2 x2. findRoute sorted_pq g 1 3 160 = Some (Inr r2) \<and>
          totalTime r2 = Finite x2 \<and> x2 \<le> 120"
    by simp
  with Some show ?thesis by simp
qed





end
